theory Spec2Isabelle
  imports Main "HOL-Library.Char_ord" "HOL-Library.List_Lexorder" "HOL-Library.Multiset"
begin

section \<open>Python values and exceptions\<close>

text \<open>
  The notebooks are Python. An exception is a value of type \<open>error\<close>; a function that can
  raise returns \<open>error + 'a\<close> with \<open>Inl\<close> for the exception. \<open>IndexError\<close> is what list
  indexing raises out of range, \<open>Exception msg\<close> is \<^verbatim>\<open>raise Exception(msg)\<close>.
\<close>

datatype error = IndexError | Exception string

text \<open>
  \<^verbatim>\<open>xs[i]\<close> and \<^verbatim>\<open>xs[i] = v\<close> on a Python list: an index in \<open>-len .. -1\<close> counts from the
  end, anything outside \<open>-len ..< len\<close> raises IndexError.
\<close>

definition py_index :: "'a list \<Rightarrow> int \<Rightarrow> error + nat" where
  "py_index xs i =
     (if 0 \<le> i \<and> i < int (length xs) then Inr (nat i)
      else if - int (length xs) \<le> i \<and> i < 0 then Inr (nat (int (length xs) + i))
      else Inl IndexError)"

definition getitem :: "'a list \<Rightarrow> int \<Rightarrow> error + 'a" where
  "getitem xs i = (case py_index xs i of Inl e \<Rightarrow> Inl e | Inr j \<Rightarrow> Inr (xs ! j))"

definition setitem :: "'a list \<Rightarrow> int \<Rightarrow> 'a \<Rightarrow> error + 'a list" where
  "setitem xs i v = (case py_index xs i of Inl e \<Rightarrow> Inl e | Inr j \<Rightarrow> Inr (xs[j := v]))"

text \<open>Truth value of what \<^verbatim>\<open>dfs\<close> returns: \<^verbatim>\<open>None\<close> and the empty list are false.\<close>

fun truthy :: "'a list option \<Rightarrow> bool" where
  "truthy None = False"
| "truthy (Some xs) = (xs \<noteq> [])"

section \<open>The class Problem\<close>

text \<open>
  \<^verbatim>\<open>Problem\<close> (lab 2; lab 1 has the first four members only) as a record of its members.
  \<^verbatim>\<open>do_action\<close> is the one member whose implementations in the notebooks raise, so it
  returns \<open>error + 's\<close>. Costs and heuristic values are Python ints.
\<close>

record ('s, 'a) problem =
  initial_state :: 's
  available_actions :: "'s \<Rightarrow> 'a list"
  do_action :: "'s \<Rightarrow> 'a \<Rightarrow> error + 's"
  is_goal :: "'s \<Rightarrow> bool"
  action_cost :: "'s \<Rightarrow> 'a \<Rightarrow> int"
  heuristic :: "'s \<Rightarrow> int"

text \<open>
  What the test harness of the notebooks does with a plan: feed the actions one by one
  through \<^verbatim>\<open>do_action\<close>, starting from a state.
\<close>

fun run_plan :: "('s, 'a) problem \<Rightarrow> 's \<Rightarrow> 'a list \<Rightarrow> error + 's" where
  "run_plan p s [] = Inr s"
| "run_plan p s (a # as) =
     (case do_action p s a of Inl e \<Rightarrow> Inl e | Inr s' \<Rightarrow> run_plan p s' as)"

text \<open>Accumulated action cost of a plan executed from a state (the sum of c(s_i, a_i)).\<close>

fun plan_cost :: "('s, 'a) problem \<Rightarrow> 's \<Rightarrow> 'a list \<Rightarrow> int" where
  "plan_cost p s [] = 0"
| "plan_cost p s (a # as) =
     (case do_action p s a of Inl e \<Rightarrow> 0 | Inr s' \<Rightarrow> action_cost p s a + plan_cost p s' as)"

text \<open>
  A legal plan from a state: every action is one that \<^verbatim>\<open>available_actions\<close> offers in
  the state it is applied in.
\<close>

fun legal_plan :: "('s, 'a) problem \<Rightarrow> 's \<Rightarrow> 'a list \<Rightarrow> bool" where
  "legal_plan p s [] = True"
| "legal_plan p s (a # as) =
     (a \<in> set (available_actions p s) \<and>
      (case do_action p s a of Inl e \<Rightarrow> False | Inr s' \<Rightarrow> legal_plan p s' as))"

section \<open>VacuumProblem\<close>

text \<open>A state is \<^verbatim>\<open>(robot, dirty)\<close>: the robot's room and the tuple of dirt flags.\<close>

type_synonym vacuum_state = "int \<times> bool list"

fun vacuum_do_action :: "vacuum_state \<Rightarrow> string \<Rightarrow> error + vacuum_state" where
  "vacuum_do_action (robot, dirty) action =
     (if action = ''Left'' then Inr (max (robot - 1) 0, dirty)
      else if action = ''Suck'' then
        (case setitem dirty robot False of
           Inl e \<Rightarrow> Inl e
         | Inr new_dirty \<Rightarrow> Inr (robot, new_dirty))
      else if action = ''Right'' then Inr (min (robot + 1) (int (length dirty) - 1), dirty)
      else Inl (Exception ''Invalid action''))"

definition vacuum_is_goal :: "vacuum_state \<Rightarrow> bool" where
  "vacuum_is_goal state = (\<not> list_ex (\<lambda>d. d) (snd state))"

text \<open>\<^verbatim>\<open>sum(state[1])\<close>: a Python bool counts as 0 or 1.\<close>

definition vacuum_heuristic :: "vacuum_state \<Rightarrow> int" where
  "vacuum_heuristic state = sum_list (map (\<lambda>d. if d then 1 else 0) (snd state))"

definition VacuumProblem :: "(vacuum_state, string) problem" where
  "VacuumProblem =
     \<lparr> initial_state = (0, [True, True]),
       available_actions = (\<lambda>state. [''Left'', ''Suck'', ''Right'']),
       do_action = vacuum_do_action,
       is_goal = vacuum_is_goal,
       action_cost = (\<lambda>state action. 1),
       heuristic = vacuum_heuristic \<rparr>"

text \<open>\<^verbatim>\<open>VacuumProblem2\<close> overrides the heuristic by ten times the number of dirty rooms.\<close>

definition VacuumProblem2 :: "(vacuum_state, string) problem" where
  "VacuumProblem2 = VacuumProblem \<lparr> heuristic := (\<lambda>state. 10 * vacuum_heuristic state) \<rparr>"

section \<open>PuzzleProblem\<close>

text \<open>A state is \<^verbatim>\<open>(position, board)\<close>: the index of the blank and the nine tiles.\<close>

type_synonym puzzle_state = "int \<times> int list"

definition puzzle_available_actions :: "puzzle_state \<Rightarrow> string list" where
  "puzzle_available_actions state =
     (let position = fst state in
        (if position mod 3 > 0 then [''Right''] else []) @
        (if position mod 3 < 2 then [''Left''] else []) @
        (if position > 2 then [''Down''] else []) @
        (if position < 6 then [''Up''] else []))"

text \<open>
  \<^verbatim>\<open>board[i], board[j] = board[j], board[i]\<close>: both reads first, then the store at
  \<open>i\<close>, then the store at \<open>j\<close>.
\<close>

definition swap_items :: "'a list \<Rightarrow> int \<Rightarrow> int \<Rightarrow> error + 'a list" where
  "swap_items board i j =
     (case getitem board j of
        Inl e \<Rightarrow> Inl e
      | Inr vj \<Rightarrow>
          (case getitem board i of
             Inl e \<Rightarrow> Inl e
           | Inr vi \<Rightarrow>
               (case setitem board i vj of
                  Inl e \<Rightarrow> Inl e
                | Inr board1 \<Rightarrow> setitem board1 j vi)))"

definition puzzle_move :: "puzzle_state \<Rightarrow> int \<Rightarrow> error + puzzle_state" where
  "puzzle_move state target =
     (case swap_items (snd state) (fst state) target of
        Inl e \<Rightarrow> Inl e
      | Inr board \<Rightarrow> Inr (target, board))"

definition puzzle_do_action :: "puzzle_state \<Rightarrow> string \<Rightarrow> error + puzzle_state" where
  "puzzle_do_action state action =
     (let position = fst state in
      if action = ''Down'' then puzzle_move state (position - 3)
      else if action = ''Up'' then puzzle_move state (position + 3)
      else if action = ''Right'' then puzzle_move state (position - 1)
      else if action = ''Left'' then puzzle_move state (position + 1)
      else Inl (Exception ''invalid action''))"

definition PuzzleProblem :: "(puzzle_state, string) problem" where
  "PuzzleProblem =
     \<lparr> initial_state = (4, [7, 2, 4, 5, 0, 6, 8, 3, 1]),
       available_actions = puzzle_available_actions,
       do_action = puzzle_do_action,
       is_goal = (\<lambda>state. state = (0, [0, 1, 2, 3, 4, 5, 6, 7, 8])),
       action_cost = (\<lambda>state action. 1),
       heuristic = (\<lambda>state. 0) \<rparr>"

text \<open>
  Well-formed puzzle states: the blank's index is on the board, the board holds the nine
  tiles 0..8 once each, and the tile at the blank's index is 0.
\<close>

definition puzzle_wf :: "puzzle_state \<Rightarrow> bool" where
  "puzzle_wf state =
     (0 \<le> fst state \<and> fst state \<le> 8 \<and> length (snd state) = 9 \<and>
      snd state ! nat (fst state) = 0 \<and> mset (snd state) = mset [0, 1, 2, 3, 4, 5, 6, 7, 8])"

section \<open>Breadth-first search (BFSAgent.bfs)\<close>

text \<open>
  What one pass of a loop body hands back: \<open>Return v\<close> is a \<^verbatim>\<open>return v\<close> inside the loop,
  \<open>Continue s\<close> is falling through with the loop's variables \<open>s\<close>.
\<close>

datatype ('r, 's) flow = Return 'r | Continue 's

text \<open>
  The \<^verbatim>\<open>for m in available_actions(starting_state)\<close> loop of \<^verbatim>\<open>bfs\<close>. Its variables
  are the list \<^verbatim>\<open>visited\<close> of \<^verbatim>\<open>[route, state]\<close> entries and the set \<^verbatim>\<open>taken_states\<close>.
  The goal test reads the notebook's global \<^verbatim>\<open>problem\<close> (argument \<open>glob\<close>), everything
  else reads \<^verbatim>\<open>self.problem\<close> (argument \<open>p\<close>). \<^verbatim>\<open>visited[-1]\<close> raises on an empty list.
\<close>

fun bfs_for ::
  "('s, 'a) problem \<Rightarrow> ('s, 'a) problem \<Rightarrow> 's \<Rightarrow> 'a list \<Rightarrow> 'a list \<Rightarrow>
   ('a list \<times> 's) list \<times> 's set \<Rightarrow> error + ('a list, ('a list \<times> 's) list \<times> 's set) flow"
where
  "bfs_for glob p starting_state route [] (visited, taken_states) =
     Inr (Continue (visited, taken_states))"
| "bfs_for glob p starting_state route (m # ms) (visited, taken_states) =
     (case do_action p starting_state m of
        Inl e \<Rightarrow> Inl e
      | Inr state \<Rightarrow>
          let (visited', taken_states') =
                (if state \<notin> taken_states
                 then (visited @ [(route @ [m], state)], insert state taken_states)
                 else (visited, taken_states))
          in if is_goal glob state
             then (if visited' = [] then Inl IndexError else Inr (Return (fst (last visited'))))
             else bfs_for glob p starting_state route ms (visited', taken_states'))"

text \<open>
  One pass of the \<^verbatim>\<open>while 1\<close> body, on the loop's variables \<^verbatim>\<open>visited\<close>,
  \<^verbatim>\<open>taken_states\<close>, \<^verbatim>\<open>idx\<close>. \<^verbatim>\<open>visited[idx]\<close> raises IndexError once \<open>idx\<close> has run
  past the list.
\<close>

fun bfs_step ::
  "('s, 'a) problem \<Rightarrow> ('s, 'a) problem \<Rightarrow> ('a list \<times> 's) list \<times> 's set \<times> nat \<Rightarrow>
   error + ('a list, ('a list \<times> 's) list \<times> 's set \<times> nat) flow"
where
  "bfs_step glob p (visited, taken_states, idx) =
     (if idx \<ge> length visited then Inl IndexError
      else
        let starting_state = snd (visited ! idx);
            route_to_starting_state = fst (visited ! idx)
        in case bfs_for glob p starting_state route_to_starting_state
                  (available_actions p starting_state) (visited, taken_states) of
             Inl e \<Rightarrow> Inl e
           | Inr (Return plan) \<Rightarrow> Inr (Return plan)
           | Inr (Continue (visited', taken_states')) \<Rightarrow>
               Inr (Continue (visited', taken_states', idx + 1)))"

text \<open>
  The loop has no exit of its own, so it takes fuel: \<open>None\<close> is "still running when the
  fuel ran out".
\<close>

fun bfs_while ::
  "nat \<Rightarrow> ('s, 'a) problem \<Rightarrow> ('s, 'a) problem \<Rightarrow>
   ('a list \<times> 's) list \<times> 's set \<times> nat \<Rightarrow> (error + 'a list) option"
where
  "bfs_while 0 glob p vars = None"
| "bfs_while (Suc fuel) glob p vars =
     (case bfs_step glob p vars of
        Inl e \<Rightarrow> Some (Inl e)
      | Inr (Return plan) \<Rightarrow> Some (Inr plan)
      | Inr (Continue vars') \<Rightarrow> bfs_while fuel glob p vars')"

text \<open>The variables before the loop: one entry for the initial state with the empty
  route, \<^verbatim>\<open>taken_states = set()\<close>, \<^verbatim>\<open>idx = 0\<close>.\<close>

definition bfs_init :: "('s, 'a) problem \<Rightarrow> ('a list \<times> 's) list \<times> 's set \<times> nat" where
  "bfs_init p = ([([], initial_state p)], {}, 0)"

definition bfs :: "nat \<Rightarrow> ('s, 'a) problem \<Rightarrow> ('s, 'a) problem \<Rightarrow> (error + 'a list) option" where
  "bfs fuel glob p = bfs_while fuel glob p (bfs_init p)"

text \<open>The loop's variables after \<open>n\<close> complete passes of the \<^verbatim>\<open>while\<close> body, when the
  search is still running then.\<close>

fun bfs_vars_after ::
  "nat \<Rightarrow> ('s, 'a) problem \<Rightarrow> ('s, 'a) problem \<Rightarrow> ('a list \<times> 's) list \<times> 's set \<times> nat \<Rightarrow>
   (('a list \<times> 's) list \<times> 's set \<times> nat) option"
where
  "bfs_vars_after 0 glob p vars = Some vars"
| "bfs_vars_after (Suc n) glob p vars =
     (case bfs_step glob p vars of
        Inr (Continue vars') \<Rightarrow> bfs_vars_after n glob p vars'
      | _ \<Rightarrow> None)"

section \<open>Depth-first search (DFSAgent.dfs)\<close>

text \<open>
  \<^verbatim>\<open>dfs(initial_state, steps, taken_states)\<close> and its \<^verbatim>\<open>for action in ...\<close> loop; the
  first parameter is called \<open>state\<close> here, \<open>initial_state\<close> being a member of the record. The set
  \<^verbatim>\<open>taken_states\<close> is one Python object handed down by reference and mutated in place, so
  the model threads it: every call returns the set as it left it. A call that falls off
  the end of the loop returns \<^verbatim>\<open>None\<close>. The recursion never nests more than 46 calls, far
  below Python's recursion limit.
\<close>

function
  dfs :: "('s, 'a) problem \<Rightarrow> 's \<Rightarrow> 'a list \<Rightarrow> 's set \<Rightarrow> error + ('a list option \<times> 's set)"
and
  dfs_for :: "('s, 'a) problem \<Rightarrow> 's \<Rightarrow> 'a list \<Rightarrow> 'a list \<Rightarrow> 's set \<Rightarrow>
              error + ('a list option \<times> 's set)"
where
  "dfs p state steps taken_states =
     (if is_goal p state then Inr (Some steps, taken_states)
      else dfs_for p state steps (available_actions p state) taken_states)"
| "dfs_for p state steps [] taken_states = Inr (None, taken_states)"
| "dfs_for p state steps (action # actions) taken_states =
     (case do_action p state action of
        Inl e \<Rightarrow> Inl e
      | Inr later_state \<Rightarrow>
          if later_state \<notin> taken_states \<and> length steps < 45 then
            (case dfs p later_state (steps @ [action]) (insert later_state taken_states) of
               Inl e \<Rightarrow> Inl e
             | Inr (route, taken_states') \<Rightarrow>
                 if truthy route then Inr (route, taken_states')
                 else dfs_for p state steps actions taken_states')
          else dfs_for p state steps actions taken_states)"
  by pat_completeness auto
termination
  by (relation "measures
        [\<lambda>x. case x of Inl (p, s, steps, t) \<Rightarrow> 45 - length steps
                      | Inr (p, s, steps, as, t) \<Rightarrow> 45 - length steps,
         \<lambda>x. case x of Inl _ \<Rightarrow> 1 | Inr _ \<Rightarrow> 0,
         \<lambda>x. case x of Inl _ \<Rightarrow> 0 | Inr (p, s, steps, as, t) \<Rightarrow> length as]")
     auto

text \<open>\<^verbatim>\<open>DFSAgent.__init__\<close>: the set is seeded with the initial state, the plan is what
  \<^verbatim>\<open>dfs\<close> returns.\<close>

definition DFSAgent_plan :: "('s, 'a) problem \<Rightarrow> error + 'a list option" where
  "DFSAgent_plan p =
     (case dfs p (initial_state p) [] {initial_state p} of
        Inl e \<Rightarrow> Inl e
      | Inr (plan, taken_states) \<Rightarrow> Inr plan)"

text \<open>
  The states \<^verbatim>\<open>dfs\<close> is called on recursively (line \<^verbatim>\<open>route = self.dfs(later_state, ...)\<close>),
  in call order, during one call of \<^verbatim>\<open>dfs\<close>. It follows the recursion of \<open>dfs\<close> and reads
  its results; it is an observation of the run, not part of the program.
\<close>

function
  dfs_calls :: "('s, 'a) problem \<Rightarrow> 's \<Rightarrow> 'a list \<Rightarrow> 's set \<Rightarrow> 's list"
and
  dfs_for_calls :: "('s, 'a) problem \<Rightarrow> 's \<Rightarrow> 'a list \<Rightarrow> 'a list \<Rightarrow> 's set \<Rightarrow> 's list"
where
  "dfs_calls p state steps taken_states =
     (if is_goal p state then []
      else dfs_for_calls p state steps (available_actions p state) taken_states)"
| "dfs_for_calls p state steps [] taken_states = []"
| "dfs_for_calls p state steps (action # actions) taken_states =
     (case do_action p state action of
        Inl e \<Rightarrow> []
      | Inr later_state \<Rightarrow>
          if later_state \<notin> taken_states \<and> length steps < 45 then
            later_state #
            dfs_calls p later_state (steps @ [action]) (insert later_state taken_states) @
            (case dfs p later_state (steps @ [action]) (insert later_state taken_states) of
               Inl e \<Rightarrow> []
             | Inr (route, taken_states') \<Rightarrow>
                 if truthy route then []
                 else dfs_for_calls p state steps actions taken_states')
          else dfs_for_calls p state steps actions taken_states)"
  by pat_completeness auto
termination
  by (relation "measures
        [\<lambda>x. case x of Inl (p, s, steps, t) \<Rightarrow> 45 - length steps
                      | Inr (p, s, steps, as, t) \<Rightarrow> 45 - length steps,
         \<lambda>x. case x of Inl _ \<Rightarrow> 1 | Inr _ \<Rightarrow> 0,
         \<lambda>x. case x of Inl _ \<Rightarrow> 0 | Inr (p, s, steps, as, t) \<Rightarrow> length as]")
     auto

section \<open>A* (astar)\<close>

text \<open>
  A queue entry is the tuple \<^verbatim>\<open>(cost, route, state, taken_states, action_costs)\<close> that
  \<^verbatim>\<open>astar\<close> puts. Its fourth component is a Python set object; an entry holds a reference
  to it, not a copy, so the model keeps the set objects in a store (a list of sets, an
  address being an index) and an entry holds an address.
\<close>

type_synonym ('s, 'a) entry = "int \<times> 'a list \<times> 's \<times> nat \<times> int"

definition entry_route :: "('s, 'a) entry \<Rightarrow> 'a list" where
  "entry_route e = fst (snd e)"

definition entry_state :: "('s, 'a) entry \<Rightarrow> 's" where
  "entry_state e = fst (snd (snd e))"

text \<open>
  \<^verbatim>\<open>PriorityQueue.get\<close> hands out the least entry under Python's tuple order: by cost, then
  by route (list order: lexicographic, a proper prefix first). Entries that agree on both
  would be compared on their states next; the entries pending in the queue of \<open>astar\<close>
  always differ in their routes (lemma \<open>astar_queue_routes_distinct\<close> below), so the model
  stops at the route.
\<close>

fun entry_less :: "('s, 'a::linorder) entry \<Rightarrow> ('s, 'a) entry \<Rightarrow> bool" where
  "entry_less (c1, r1, rest1) (c2, r2, rest2) = (c1 < c2 \<or> (c1 = c2 \<and> r1 < r2))"

fun pq_min :: "('s, 'a::linorder) entry \<Rightarrow> ('s, 'a) entry list \<Rightarrow> ('s, 'a) entry" where
  "pq_min e [] = e"
| "pq_min e (x # xs) = pq_min (if entry_less x e then x else e) xs"

definition pq_put :: "('s, 'a) entry \<Rightarrow> ('s, 'a) entry list \<Rightarrow> ('s, 'a) entry list" where
  "pq_put e queue = queue @ [e]"

text \<open>\<^verbatim>\<open>get\<close> on an empty queue blocks forever: no result.\<close>

fun pq_get :: "('s, 'a::linorder) entry list \<Rightarrow> (('s, 'a) entry \<times> ('s, 'a) entry list) option" where
  "pq_get [] = None"
| "pq_get (e # queue) = (let m = pq_min e queue in Some (m, remove1 m (e # queue)))"

text \<open>
  The \<^verbatim>\<open>for action in available_actions(state)\<close> loop. \<open>taken_states\<close> is the address the
  local variable holds; \<^verbatim>\<open>taken_states.add\<close> updates the object at that address, and the
  new entry is given the same address.
\<close>

fun astar_for ::
  "('s, 'a) problem \<Rightarrow> 's \<Rightarrow> 'a list \<Rightarrow> nat \<Rightarrow> int \<Rightarrow> 'a list \<Rightarrow>
   ('s, 'a) entry list \<times> 's set list \<Rightarrow> error + (('s, 'a) entry list \<times> 's set list)"
where
  "astar_for p state route taken_states action_costs [] (queue, heap) = Inr (queue, heap)"
| "astar_for p state route taken_states action_costs (action # actions) (queue, heap) =
     (case do_action p state action of
        Inl e \<Rightarrow> Inl e
      | Inr later_state \<Rightarrow>
          let later_cost = action_costs + action_cost p state action + heuristic p later_state
          in if later_state \<notin> heap ! taken_states then
               let later_route = route @ [action];
                   heap' = heap[taken_states := insert later_state (heap ! taken_states)];
                   later_action_costs = action_costs + action_cost p state action
               in astar_for p state route taken_states action_costs actions
                    (pq_put (later_cost, later_route, later_state, taken_states,
                             later_action_costs) queue, heap')
             else astar_for p state route taken_states action_costs actions (queue, heap))"

text \<open>
  One pass of the \<^verbatim>\<open>while\<close> body on a non-empty queue. The loop's variables are the
  queue, the store and the address in the local \<^verbatim>\<open>taken_states\<close>. A return carries the
  plan and the number that \<^verbatim>\<open>print(len(taken_states))\<close> writes.
\<close>

fun astar_step ::
  "('s, 'a::linorder) problem \<Rightarrow> ('s, 'a) entry list \<times> 's set list \<times> nat \<Rightarrow>
   (error + ('a list option \<times> nat, ('s, 'a) entry list \<times> 's set list \<times> nat) flow) option"
where
  "astar_step p (queue, heap, ts) =
     (case pq_get queue of
        None \<Rightarrow> None
      | Some ((cost, route, state, taken_states, action_costs), queue') \<Rightarrow>
          (if is_goal p state then Some (Inr (Return (Some route, card (heap ! taken_states))))
           else
             (case astar_for p state route taken_states action_costs
                     (available_actions p state) (queue', heap) of
                Inl e \<Rightarrow> Some (Inl e)
              | Inr (queue'', heap') \<Rightarrow> Some (Inr (Continue (queue'', heap', taken_states))))))"

fun astar_while ::
  "nat \<Rightarrow> ('s, 'a::linorder) problem \<Rightarrow> ('s, 'a) entry list \<times> 's set list \<times> nat \<Rightarrow>
   (error + 'a list option \<times> nat) option"
where
  "astar_while 0 p vars = None"
| "astar_while (Suc fuel) p (queue, heap, taken_states) =
     (if queue = [] then Some (Inr (None, card (heap ! taken_states)))
      else
        (case astar_step p (queue, heap, taken_states) of
           None \<Rightarrow> None
         | Some (Inl e) \<Rightarrow> Some (Inl e)
         | Some (Inr (Return r)) \<Rightarrow> Some (Inr r)
         | Some (Inr (Continue vars')) \<Rightarrow> astar_while fuel p vars'))"

text \<open>The variables at the head of the loop: one set object, at address 0, holding the
  initial state; one entry, holding that address.\<close>

definition astar_init ::
  "('s, 'a) problem \<Rightarrow> ('s, 'a) entry list \<times> 's set list \<times> nat" where
  "astar_init p =
     (pq_put (heuristic p (initial_state p), [], initial_state p, 0, 0) [],
      [{initial_state p}], 0)"

definition astar :: "nat \<Rightarrow> ('s, 'a::linorder) problem \<Rightarrow> (error + 'a list option \<times> nat) option" where
  "astar fuel p = astar_while fuel p (astar_init p)"

text \<open>The loop's variables after \<open>n\<close> complete passes of the \<^verbatim>\<open>while\<close> body, when the
  search is still running then.\<close>

fun astar_vars_after ::
  "nat \<Rightarrow> ('s, 'a::linorder) problem \<Rightarrow> ('s, 'a) entry list \<times> 's set list \<times> nat \<Rightarrow>
   (('s, 'a) entry list \<times> 's set list \<times> nat) option"
where
  "astar_vars_after 0 p vars = Some vars"
| "astar_vars_after (Suc n) p vars =
     (if fst vars = [] then None
      else
        (case astar_step p vars of
           Some (Inr (Continue vars')) \<Rightarrow> astar_vars_after n p vars'
         | _ \<Rightarrow> None))"

section \<open>Problems used as test inputs\<close>

text \<open>A non-goal initial state that offers no action at all.\<close>

definition DeadEndProblem :: "(nat, string) problem" where
  "DeadEndProblem =
     \<lparr> initial_state = 0,
       available_actions = (\<lambda>state. []),
       do_action = (\<lambda>state action. Inr state),
       is_goal = (\<lambda>state. False),
       action_cost = (\<lambda>state action. 1),
       heuristic = (\<lambda>state. 0) \<rparr>"

text \<open>One non-goal state whose only action leads back to it.\<close>

definition StayProblem :: "(nat, string) problem" where
  "StayProblem =
     \<lparr> initial_state = 0,
       available_actions = (\<lambda>state. [''Stay'']),
       do_action = (\<lambda>state action. Inr state),
       is_goal = (\<lambda>state. False),
       action_cost = (\<lambda>state action. 1),
       heuristic = (\<lambda>state. 0) \<rparr>"

text \<open>The vacuum world started in a state that is already a goal: both rooms clean.\<close>

definition CleanVacuumProblem :: "(vacuum_state, string) problem" where
  "CleanVacuumProblem = VacuumProblem \<lparr> initial_state := (0, [False, False]) \<rparr>"

text \<open>
  Three states: 0 (start), 1, 2 (goal). From 0, ``direct'' reaches the goal at cost 10 and
  ``detour'' reaches 1 at cost 1; from 1, ``finish'' reaches the goal at cost 1. The
  heuristic is 0 everywhere, which is admissible and consistent as no cost is negative.
\<close>

definition DetourProblem :: "(nat, string) problem" where
  "DetourProblem =
     \<lparr> initial_state = 0,
       available_actions =
         (\<lambda>state. if state = 0 then [''direct'', ''detour'']
                  else if state = 1 then [''finish''] else []),
       do_action =
         (\<lambda>state action.
            if state = 0 \<and> action = ''direct'' then Inr 2
            else if state = 0 \<and> action = ''detour'' then Inr 1
            else if state = 1 \<and> action = ''finish'' then Inr 2
            else Inl (Exception ''Invalid action'')),
       is_goal = (\<lambda>state. state = 2),
       action_cost = (\<lambda>state action. if action = ''direct'' then 10 else 1),
       heuristic = (\<lambda>state. 0) \<rparr>"

text \<open>
  Seven states with unit action costs: 0 (start), 1, 2, 3, 4, 5, 6 (goal). Action ``a''
  leads 0 to 1, 1 to 2 and 2 to 4; action ``b'' leads 0 to 3 and 3 to 4; action ``c'' leads
  4 to 5 and 5 to 6. The heuristic is the exact remaining cost on states 3 to 6 and 0 on
  states 0 to 2.
\<close>

definition UnitDetourProblem :: "(nat, string) problem" where
  "UnitDetourProblem =
     \<lparr> initial_state = 0,
       available_actions =
         (\<lambda>state. if state = 0 then [''a'', ''b'']
                  else if state = 1 \<or> state = 2 then [''a'']
                  else if state = 3 then [''b'']
                  else if state = 4 \<or> state = 5 then [''c''] else []),
       do_action =
         (\<lambda>state action.
            if action = ''a'' \<and> state = 0 then Inr 1
            else if action = ''a'' \<and> state = 1 then Inr 2
            else if action = ''a'' \<and> state = 2 then Inr 4
            else if action = ''b'' \<and> state = 0 then Inr 3
            else if action = ''b'' \<and> state = 3 then Inr 4
            else if action = ''c'' \<and> state = 4 then Inr 5
            else if action = ''c'' \<and> state = 5 then Inr 6
            else Inl (Exception ''Invalid action'')),
       is_goal = (\<lambda>state. state = 6),
       action_cost = (\<lambda>state action. 1),
       heuristic =
         (\<lambda>state. if state = 3 then 3 else if state = 4 then 2 else if state = 5 then 1 else 0) \<rparr>"

section \<open>Properties of heuristics\<close>

text \<open>
  The two properties that the notebook asks of a heuristic. Consistent: along every
  action, \<open>h(s) \<le> c(s, a) + h(s')\<close>. Admissible: \<open>h(s)\<close> never exceeds the cost of a
  legal plan from \<open>s\<close> to a goal state.
\<close>

definition consistent :: "('s, 'a) problem \<Rightarrow> bool" where
  "consistent p =
     (\<forall>s. \<forall>a \<in> set (available_actions p s). \<forall>s'.
        do_action p s a = Inr s' \<longrightarrow> heuristic p s \<le> action_cost p s a + heuristic p s')"

definition admissible :: "('s, 'a) problem \<Rightarrow> bool" where
  "admissible p =
     (\<forall>s q g. legal_plan p s q \<and> run_plan p s q = Inr g \<and> is_goal p g \<longrightarrow>
        heuristic p s \<le> plan_cost p s q)"

section \<open>The loop invariant of breadth-first search\<close>

text \<open>
  What holds of \<^verbatim>\<open>visited\<close>, \<^verbatim>\<open>taken_states\<close> and \<^verbatim>\<open>idx\<close> at the head of the \<^verbatim>\<open>while\<close>
  loop: \<^verbatim>\<open>visited\<close> starts with the initial state and the empty route, its routes do not
  get shorter along the list and none is more than one action longer than the route at
  \<open>idx\<close>; every state of \<^verbatim>\<open>taken_states\<close> is in \<^verbatim>\<open>visited\<close> and is not a goal; and every
  successor of an entry before \<open>idx\<close> is not a goal and is in \<^verbatim>\<open>visited\<close> with a route at
  most one action longer than that entry's.
\<close>

definition bfs_inv :: "('s, 'a) problem \<Rightarrow> ('a list \<times> 's) list \<times> 's set \<times> nat \<Rightarrow> bool" where
  "bfs_inv p vars =
     (case vars of (visited, taken_states, idx) \<Rightarrow>
        idx \<le> length visited \<and> visited \<noteq> [] \<and> hd visited = ([], initial_state p) \<and>
        sorted (map (\<lambda>e. length (fst e)) visited) \<and>
        (idx < length visited \<longrightarrow>
           (\<forall>e \<in> set visited. length (fst e) \<le> length (fst (visited ! idx)) + 1)) \<and>
        (\<forall>s \<in> taken_states. \<not> is_goal p s \<and> s \<in> snd ` set visited) \<and>
        (\<forall>e \<in> set (take idx visited). \<forall>a \<in> set (available_actions p (snd e)). \<forall>s'.
           do_action p (snd e) a = Inr s' \<longrightarrow>
             \<not> is_goal p s' \<and>
             (\<exists>e' \<in> set visited. snd e' = s' \<and> length (fst e') \<le> length (fst e) + 1)))"

section \<open>More fuel never changes a result\<close>

lemma bfs_while_more_fuel:
  "bfs_while fuel glob p vars = Some r \<Longrightarrow> bfs_while (fuel + k) glob p vars = Some r"
proof (induction fuel arbitrary: vars)
  case 0
  then show ?case by simp
next
  case (Suc fuel)
  from Suc.prems show ?case
    by (auto simp del: bfs_step.simps split: sum.splits flow.splits intro: Suc.IH)
qed

lemma bfs_more_fuel: "bfs fuel glob p = Some r \<Longrightarrow> bfs (fuel + k) glob p = Some r"
  unfolding bfs_def by (rule bfs_while_more_fuel)

lemma astar_while_more_fuel:
  "astar_while fuel p vars = Some r \<Longrightarrow> astar_while (fuel + k) p vars = Some r"
proof (induction fuel arbitrary: vars)
  case 0
  then show ?case by simp
next
  case (Suc fuel)
  obtain queue heap ts where v: "vars = (queue, heap, ts)" by (cases vars)
  from Suc.prems show ?case
    unfolding v
    by (auto simp del: astar_step.simps
             split: if_splits option.splits sum.splits flow.splits intro: Suc.IH)
qed

lemma astar_more_fuel: "astar fuel p = Some r \<Longrightarrow> astar (fuel + k) p = Some r"
  unfolding astar_def by (rule astar_while_more_fuel)

section \<open>The searches on concrete problems\<close>

lemma astar_VacuumProblem:
  "astar 6 VacuumProblem = Some (Inr (Some [''Suck'', ''Right'', ''Suck''], 7))"
  by code_simp

lemma astar_VacuumProblem2:
  "astar 4 VacuumProblem2 = Some (Inr (Some [''Suck'', ''Right'', ''Suck''], 5))"
  by code_simp

lemma run_plan_VacuumProblem2:
  "run_plan VacuumProblem2 (initial_state VacuumProblem2) [''Suck'', ''Right'', ''Suck'']
     = Inr (1, [False, False])"
  by code_simp

text \<open>
  C9. In the two-room vacuum world started at room 0 with both rooms dirty, with unit
  action cost and the number of dirty rooms as heuristic, \<open>astar\<close> returns the plan
  Suck, Right, Suck and prints 7 as the number of visited states. With ten times the
  number of dirty rooms as heuristic it returns the same plan, which leads to a goal
  state, and prints 5, which is fewer.
\<close>

theorem astar_vacuum_world:
  "astar (6 + n) VacuumProblem = Some (Inr (Some [''Suck'', ''Right'', ''Suck''], 7)) \<and>
   astar (4 + n) VacuumProblem2 = Some (Inr (Some [''Suck'', ''Right'', ''Suck''], 5)) \<and>
   run_plan VacuumProblem2 (initial_state VacuumProblem2) [''Suck'', ''Right'', ''Suck'']
     = Inr (1, [False, False]) \<and>
   is_goal VacuumProblem2 (1, [False, False]) \<and> (5::nat) < 7"
  using astar_more_fuel [OF astar_VacuumProblem, of n]
        astar_more_fuel [OF astar_VacuumProblem2, of n] run_plan_VacuumProblem2
  by (simp add: VacuumProblem2_def VacuumProblem_def vacuum_is_goal_def)

lemma bfs_DeadEndProblem: "bfs 2 DeadEndProblem DeadEndProblem = Some (Inl IndexError)"
  by code_simp

lemma astar_DeadEndProblem: "astar 2 DeadEndProblem = Some (Inr (None, 1))"
  by code_simp

lemma dfs_DeadEndProblem: "DFSAgent_plan DeadEndProblem = Inr None"
  by code_simp

text \<open>
  C4. A problem whose initial state is not a goal and offers no action: \<open>dfs\<close> and
  \<open>astar\<close> return \<^verbatim>\<open>None\<close>, but \<open>bfs\<close> ends by raising IndexError, at \<^verbatim>\<open>visited[idx]\<close>
  with \<open>idx = 1\<close>.
\<close>

theorem bfs_dead_end_raises:
  "bfs (2 + n) DeadEndProblem DeadEndProblem = Some (Inl IndexError) \<and>
   DFSAgent_plan DeadEndProblem = Inr None \<and>
   astar (2 + n) DeadEndProblem = Some (Inr (None, 1)) \<and>
   \<not> is_goal DeadEndProblem (initial_state DeadEndProblem) \<and>
   available_actions DeadEndProblem s = []"
  using bfs_more_fuel [OF bfs_DeadEndProblem, of n]
        astar_more_fuel [OF astar_DeadEndProblem, of n] dfs_DeadEndProblem
  by (simp add: DeadEndProblem_def)

lemma bfs_StayProblem: "bfs 3 StayProblem StayProblem = Some (Inl IndexError)"
  by code_simp

text \<open>
  C1. A problem with one state, not a goal, whose only action leads back to it: no goal is
  reachable and the search space is exhausted after two passes, yet \<open>bfs\<close> does not
  return an absent result: it raises IndexError.
\<close>

theorem bfs_exhausted_raises:
  "bfs (3 + n) StayProblem StayProblem = Some (Inl IndexError) \<and>
   \<not> is_goal StayProblem s \<and> do_action StayProblem s a = Inr s"
  using bfs_more_fuel [OF bfs_StayProblem, of n]
  by (simp add: StayProblem_def)

lemma bfs_CleanVacuumProblem:
  "bfs 1 CleanVacuumProblem CleanVacuumProblem = Some (Inr [''Left''])"
  by code_simp

text \<open>
  C2. The vacuum world started with both rooms clean: the initial state is a goal, so the
  empty plan reaches a goal, but \<open>bfs\<close> returns the plan Left, of length 1.
\<close>

theorem bfs_goal_at_start:
  "bfs (1 + n) CleanVacuumProblem CleanVacuumProblem = Some (Inr [''Left'']) \<and>
   is_goal CleanVacuumProblem (initial_state CleanVacuumProblem) \<and>
   run_plan CleanVacuumProblem (initial_state CleanVacuumProblem) []
     = Inr (initial_state CleanVacuumProblem) \<and>
   length ([] :: string list) < length [''Left'']"
  using bfs_more_fuel [OF bfs_CleanVacuumProblem, of n]
  by (simp add: CleanVacuumProblem_def VacuumProblem_def vacuum_is_goal_def)

lemma astar_DetourProblem: "astar 3 DetourProblem = Some (Inr (Some [''direct''], 3))"
  by code_simp

lemma DetourProblem_plans:
  "legal_plan DetourProblem 0 [''direct''] \<and>
   run_plan DetourProblem 0 [''direct''] = Inr 2 \<and>
   plan_cost DetourProblem 0 [''direct''] = 10 \<and>
   legal_plan DetourProblem 0 [''detour'', ''finish''] \<and>
   run_plan DetourProblem 0 [''detour'', ''finish''] = Inr 2 \<and>
   plan_cost DetourProblem 0 [''detour'', ''finish''] = 2"
  by (simp add: DetourProblem_def)

text \<open>
  C3. In the detour problem the heuristic is 0 everywhere and every action cost is
  positive, so the heuristic is admissible and consistent. \<open>astar\<close> returns the plan
  ``direct'' of cost 10, although the plan ``detour'', ``finish'' reaches the goal at
  cost 2: the goal state was put into the visited set when the start was expanded, so the
  cheaper path to it found later is dropped.
\<close>

theorem astar_detour_not_minimal:
  "astar (3 + n) DetourProblem = Some (Inr (Some [''direct''], 3)) \<and>
   plan_cost DetourProblem (initial_state DetourProblem) [''direct''] = 10 \<and>
   legal_plan DetourProblem (initial_state DetourProblem) [''detour'', ''finish''] \<and>
   run_plan DetourProblem (initial_state DetourProblem) [''detour'', ''finish''] = Inr 2 \<and>
   is_goal DetourProblem 2 \<and>
   plan_cost DetourProblem (initial_state DetourProblem) [''detour'', ''finish''] = 2 \<and>
   heuristic DetourProblem s = 0 \<and> 0 < action_cost DetourProblem s a"
  using astar_more_fuel [OF astar_DetourProblem, of n] DetourProblem_plans
  by (simp add: DetourProblem_def)

text \<open>
  C6. \<open>bfs\<close> starts its loop with an empty visited set: the initial state is not in it.
  In the vacuum world the first pass therefore finds the initial state again (action
  Left), adds it to the set then, and appends it to \<^verbatim>\<open>visited\<close> a second time.
\<close>

theorem bfs_initial_state_enqueued_twice:
  "bfs_vars_after 0 VacuumProblem VacuumProblem (bfs_init VacuumProblem) =
     Some ([([], (0, [True, True]))], {}, 0) \<and>
   bfs_vars_after 1 VacuumProblem VacuumProblem (bfs_init VacuumProblem) =
     Some ([([], (0, [True, True])), ([''Left''], (0, [True, True])),
            ([''Suck''], (0, [False, True])), ([''Right''], (1, [True, True]))],
           {(0, [True, True]), (0, [False, True]), (1, [True, True])}, 1)"
  by code_simp


section \<open>PuzzleProblem keeps its states well-formed\<close>

lemma getitem_in_range:
  "0 \<le> i \<Longrightarrow> i < int (length xs) \<Longrightarrow> getitem xs i = Inr (xs ! nat i)"
  by (simp add: getitem_def py_index_def)

lemma setitem_in_range:
  "0 \<le> i \<Longrightarrow> i < int (length xs) \<Longrightarrow> setitem xs i v = Inr (xs[nat i := v])"
  by (simp add: setitem_def py_index_def)

lemma swap_items_in_range:
  assumes "0 \<le> i" "i < int (length xs)" "0 \<le> j" "j < int (length xs)"
  shows "swap_items xs i j = Inr (xs[nat i := xs ! nat j, nat j := xs ! nat i])"
  using assms by (simp add: swap_items_def getitem_in_range setitem_in_range)

lemma puzzle_move_wf:
  assumes wf: "puzzle_wf state" and t: "0 \<le> target" "target \<le> 8"
  shows "\<exists>board'. puzzle_move state target = Inr (target, board') \<and> puzzle_wf (target, board')"
proof -
  obtain position board where st: "state = (position, board)" by (cases state)
  from wf st have p: "0 \<le> position" "position \<le> 8" and len: "length board = 9"
    and blank: "board ! nat position = 0"
    and perm: "mset board = mset [0, 1, 2, 3, 4, 5, 6, 7, 8]"
    by (simp_all add: puzzle_wf_def)
  let ?b = "board[nat position := board ! nat target, nat target := board ! nat position]"
  have sw: "swap_items board position target = Inr ?b"
    using p t len by (intro swap_items_in_range) simp_all
  have "mset ?b = mset board"
    using p t len by (intro mset_swap) simp_all
  moreover have "?b ! nat target = 0"
    using blank t len by simp
  moreover have "length ?b = 9" using len by simp
  ultimately have "puzzle_wf (target, ?b)"
    using t perm by (simp add: puzzle_wf_def)
  with sw st show ?thesis by (simp add: puzzle_move_def)
qed

text \<open>
  C10. From a well-formed puzzle state (blank index \<open>p\<close> in 0..8, nine tiles that are a
  permutation of 0..8, tile 0 at index \<open>p\<close>), every action that \<^verbatim>\<open>available_actions\<close>
  offers makes \<^verbatim>\<open>do_action\<close> return without an IndexError, the two board indices it uses
  (\<open>p\<close> and the new blank index \<open>p'\<close>) lie in 0..8, and the state returned is well-formed
  again.
\<close>

theorem puzzle_do_action_wf:
  assumes "puzzle_wf state" and "action \<in> set (puzzle_available_actions state)"
  shows "\<exists>p' board'. puzzle_do_action state action = Inr (p', board') \<and>
           0 \<le> p' \<and> p' \<le> 8 \<and> puzzle_wf (p', board') \<and>
           board' = (snd state)[nat (fst state) := snd state ! nat p', nat p' := 0]"
proof -
  obtain position board where st: "state = (position, board)" by (cases state)
  from assms(1) st have p: "0 \<le> position" "position \<le> 8" and len: "length board = 9"
    and blank: "board ! nat position = 0"
    by (simp_all add: puzzle_wf_def)
  have step: "\<exists>p' board'. puzzle_move state target = Inr (p', board') \<and>
           0 \<le> p' \<and> p' \<le> 8 \<and> puzzle_wf (p', board') \<and>
           board' = (snd state)[nat (fst state) := snd state ! nat p', nat p' := 0]"
    if t: "0 \<le> target" "target \<le> 8" for target
  proof -
    from puzzle_move_wf [OF assms(1) t] obtain board'
      where m: "puzzle_move state target = Inr (target, board')"
        and w: "puzzle_wf (target, board')" by blast
    have "swap_items board position target
            = Inr (board[nat position := board ! nat target, nat target := board ! nat position])"
      using p t len by (intro swap_items_in_range) simp_all
    with m st blank have "board' = board[nat position := board ! nat target, nat target := 0]"
      by (simp add: puzzle_move_def)
    with m w t st show ?thesis by simp
  qed
  from assms(2) st consider
      (right) "action = ''Right''" "position mod 3 > 0"
    | (left) "action = ''Left''" "position mod 3 < 2"
    | (down) "action = ''Down''" "position > 2"
    | (up) "action = ''Up''" "position < 6"
    by (auto simp: puzzle_available_actions_def Let_def split: if_splits)
  then show ?thesis
  proof cases
    case right
    have "0 \<le> position - 1" "position - 1 \<le> 8" using right(2) p by presburger+
    from step [OF this] right(1) st show ?thesis by (simp add: puzzle_do_action_def)
  next
    case left
    have "0 \<le> position + 1" "position + 1 \<le> 8" using left(2) p by presburger+
    from step [OF this] left(1) st show ?thesis by (simp add: puzzle_do_action_def)
  next
    case down
    have "0 \<le> position - 3" "position - 3 \<le> 8" using down(2) p by presburger+
    from step [OF this] down(1) st show ?thesis by (simp add: puzzle_do_action_def)
  next
    case up
    have "0 \<le> position + 3" "position + 3 \<le> 8" using up(2) p by presburger+
    from step [OF this] up(1) st show ?thesis by (simp add: puzzle_do_action_def)
  qed
qed

theorem puzzle_do_action_wf_witness:
  "puzzle_wf (initial_state PuzzleProblem) \<and>
   ''Up'' \<in> set (puzzle_available_actions (initial_state PuzzleProblem)) \<and>
   puzzle_do_action (initial_state PuzzleProblem) ''Up'' = Inr (7, [7, 2, 4, 5, 3, 6, 8, 0, 1]) \<and>
   puzzle_wf (7, [7, 2, 4, 5, 3, 6, 8, 0, 1])"
proof -
  have w: "puzzle_wf (initial_state PuzzleProblem)"
    by (simp add: PuzzleProblem_def puzzle_wf_def)
  have a: "''Up'' \<in> set (puzzle_available_actions (initial_state PuzzleProblem))"
    by (simp add: PuzzleProblem_def puzzle_available_actions_def)
  have e: "puzzle_do_action (initial_state PuzzleProblem) ''Up'' = Inr (7, [7, 2, 4, 5, 3, 6, 8, 0, 1])"
    by code_simp
  from puzzle_do_action_wf [OF w a] e w a show ?thesis by auto
qed


section \<open>Depth-first search: depth bound, returned plans, visited set\<close>

lemma run_plan_snoc:
  "run_plan p s (xs @ [a]) =
     (case run_plan p s xs of Inl e \<Rightarrow> Inl e | Inr s' \<Rightarrow> do_action p s' a)"
  by (induction xs arbitrary: s) (auto split: sum.splits)

lemma dfs_plan_length:
  "dfs p state steps taken = Inr (Some plan, taken') \<Longrightarrow> length steps \<le> 45 \<Longrightarrow>
     length plan \<le> 45"
  "dfs_for p state steps actions taken = Inr (Some plan, taken') \<Longrightarrow> length steps \<le> 45 \<Longrightarrow>
     length plan \<le> 45"
proof (induction p state steps taken and p state steps actions taken
       arbitrary: plan taken' and plan taken' rule: dfs_dfs_for.induct)
  case (1 p state steps taken_states)
  then show ?case by (auto split: if_splits)
next
  case (2 p state steps taken_states)
  then show ?case by simp
next
  case (3 p state steps action actions taken_states)
  from "3.prems" show ?case
    by (auto split: sum.splits if_splits prod.splits
             dest: "3.IH"(1) "3.IH"(2) "3.IH"(3))
qed

lemma dfs_plan_reaches_goal:
  "dfs p state steps taken = Inr (Some plan, taken') \<Longrightarrow> run_plan p s0 steps = Inr state \<Longrightarrow>
     \<exists>g. run_plan p s0 plan = Inr g \<and> is_goal p g"
  "dfs_for p state steps actions taken = Inr (Some plan, taken') \<Longrightarrow>
     run_plan p s0 steps = Inr state \<Longrightarrow>
     \<exists>g. run_plan p s0 plan = Inr g \<and> is_goal p g"
proof (induction p state steps taken and p state steps actions taken
       arbitrary: plan taken' and plan taken' rule: dfs_dfs_for.induct)
  case (1 p state steps taken_states)
  then show ?case by (auto split: if_splits)
next
  case (2 p state steps taken_states)
  then show ?case by simp
next
  case (3 p state steps action actions taken_states)
  show ?case
  proof (cases "do_action p state action")
    case (Inl e)
    with "3.prems" show ?thesis by simp
  next
    case (Inr later_state)
    show ?thesis
    proof (cases "later_state \<notin> taken_states \<and> length steps < 45")
      case False
      with Inr "3.prems" "3.IH"(3) show ?thesis by auto
    next
      case True
      have run: "run_plan p s0 (steps @ [action]) = Inr later_state"
        using "3.prems"(2) Inr by (simp add: run_plan_snoc)
      show ?thesis
      proof (cases "dfs p later_state (steps @ [action]) (insert later_state taken_states)")
        case (Inl e)
        with Inr True "3.prems" show ?thesis by simp
      next
        case inner: (Inr res)
        obtain route taken1 where res: "res = (route, taken1)" by (cases res)
        show ?thesis
        proof (cases "truthy route")
          case t: True
          with Inr True inner res "3.prems"(1) have "route = Some plan" by simp
          with "3.IH"(1) [OF Inr True _ run] inner res show ?thesis by simp
        next
          case f: False
          with Inr True inner res "3.prems"(1)
          have "dfs_for p state steps actions taken1 = Inr (Some plan, taken')" by simp
          from "3.IH"(2) [OF Inr True inner res [symmetric] f this "3.prems"(2)]
          show ?thesis .
        qed
      qed
    qed
  qed
qed

lemma dfs_for_at_bound:
  "45 \<le> length steps \<Longrightarrow> \<forall>a\<in>set actions. \<exists>s'. do_action p state a = Inr s' \<Longrightarrow>
     dfs_for p state steps actions taken = Inr (None, taken)"
  by (induction actions) auto

text \<open>
  C7. \<open>dfs\<close> is a total function: its recursion was shown to terminate from the measure
  \<open>45 - length steps\<close> alone, for every problem (the lists of actions are finite), whatever
  the state space. A plan that the agent gets from \<open>dfs\<close> has at most 45 actions. In a call
  that has reached the bound (45 steps) the loop over the actions, whatever they are, ends
  as the loop over no actions does: it returns \<^verbatim>\<open>None\<close> with the visited set unchanged,
  and raises nothing as long as \<^verbatim>\<open>do_action\<close> itself does not raise.
\<close>

theorem dfs_depth_bound:
  "(DFSAgent_plan p = Inr (Some plan) \<longrightarrow> length plan \<le> 45) \<and>
   (45 \<le> length steps \<and> (\<forall>a\<in>set actions. \<exists>s'. do_action p state a = Inr s') \<longrightarrow>
      dfs_for p state steps actions taken = Inr (None, taken) \<and>
      dfs_for p state steps actions taken = dfs_for p state steps [] taken)"
proof (intro conjI impI)
  assume "DFSAgent_plan p = Inr (Some plan)"
  then obtain taken' where "dfs p (initial_state p) [] {initial_state p} = Inr (Some plan, taken')"
    by (auto simp: DFSAgent_plan_def split: sum.splits)
  from dfs_plan_length(1) [OF this] show "length plan \<le> 45" by simp
next
  assume a: "45 \<le> length steps \<and> (\<forall>a\<in>set actions. \<exists>s'. do_action p state a = Inr s')"
  then show "dfs_for p state steps actions taken = Inr (None, taken)"
    by (simp add: dfs_for_at_bound)
  with a show "dfs_for p state steps actions taken = dfs_for p state steps [] taken"
    by simp
qed

lemma DFSAgent_plan_VacuumProblem:
  "DFSAgent_plan VacuumProblem = Inr (Some [''Suck'', ''Right'', ''Suck''])"
  by code_simp

theorem dfs_depth_bound_witness:
  "DFSAgent_plan VacuumProblem = Inr (Some [''Suck'', ''Right'', ''Suck'']) \<and>
   length [''Suck'', ''Right'', ''Suck''] \<le> 45 \<and>
   45 \<le> length (replicate 45 ''Left'') \<and>
   do_action VacuumProblem (0, [True, True]) ''Left'' = Inr (0, [True, True]) \<and>
   do_action VacuumProblem (0, [True, True]) ''Suck'' = Inr (0, [False, True]) \<and>
   do_action VacuumProblem (0, [True, True]) ''Right'' = Inr (1, [True, True]) \<and>
   dfs_for VacuumProblem (0, [True, True]) (replicate 45 ''Left'')
     [''Left'', ''Suck'', ''Right''] {(0, [True, True])} = Inr (None, {(0, [True, True])})"
proof -
  have b: "45 \<le> length (replicate 45 ''Left'')" by simp
  have l: "do_action VacuumProblem (0, [True, True]) ''Left'' = Inr (0, [True, True])"
    by code_simp
  have s: "do_action VacuumProblem (0, [True, True]) ''Suck'' = Inr (0, [False, True])"
    by code_simp
  have r: "do_action VacuumProblem (0, [True, True]) ''Right'' = Inr (1, [True, True])"
    by code_simp
  from l s r have d: "\<forall>a\<in>set [''Left'', ''Suck'', ''Right''].
      \<exists>s'. do_action VacuumProblem (0, [True, True]) a = Inr s'"
    by simp
  from dfs_depth_bound [of VacuumProblem "[''Suck'', ''Right'', ''Suck'']"
         "replicate 45 ''Left''" "[''Left'', ''Suck'', ''Right'']" "(0, [True, True])"
         "{(0, [True, True])}"]
       DFSAgent_plan_VacuumProblem b d
  have "length [''Suck'', ''Right'', ''Suck''] \<le> 45" and
    "dfs_for VacuumProblem (0, [True, True]) (replicate 45 ''Left'')
       [''Left'', ''Suck'', ''Right''] {(0, [True, True])} = Inr (None, {(0, [True, True])})"
    by blast+
  with DFSAgent_plan_VacuumProblem b l s r show ?thesis by blast
qed

lemma dfs_calls_visited:
  "distinct (dfs_calls p state steps taken) \<and>
   set (dfs_calls p state steps taken) \<inter> taken = {} \<and>
   (\<forall>r taken'. dfs p state steps taken = Inr (r, taken') \<longrightarrow>
       taken' = taken \<union> set (dfs_calls p state steps taken))"
  "distinct (dfs_for_calls p state steps actions taken) \<and>
   set (dfs_for_calls p state steps actions taken) \<inter> taken = {} \<and>
   (\<forall>r taken'. dfs_for p state steps actions taken = Inr (r, taken') \<longrightarrow>
       taken' = taken \<union> set (dfs_for_calls p state steps actions taken))"
proof (induction p state steps taken and p state steps actions taken
       rule: dfs_calls_dfs_for_calls.induct)
  case (1 p state steps taken_states)
  then show ?case by auto
next
  case (2 p state steps taken_states)
  then show ?case by simp
next
  case (3 p state steps action actions taken_states)
  show ?case
  proof (cases "do_action p state action")
    case (Inl e)
    then show ?thesis by simp
  next
    case (Inr later_state)
    show ?thesis
    proof (cases "later_state \<notin> taken_states \<and> length steps < 45")
      case False
      with Inr "3.IH"(3) show ?thesis by auto
    next
      case True
      note ih1 = "3.IH"(1) [OF Inr True]
      show ?thesis
      proof (cases "dfs p later_state (steps @ [action]) (insert later_state taken_states)")
        case (Inl e)
        with Inr True ih1 show ?thesis by auto
      next
        case inner: (Inr res)
        obtain route taken1 where res: "res = (route, taken1)" by (cases res)
        from ih1 inner res
        have t1: "taken1 = insert later_state taken_states \<union>
                    set (dfs_calls p later_state (steps @ [action]) (insert later_state taken_states))"
          by simp
        show ?thesis
        proof (cases "truthy route")
          case t: True
          with Inr True inner res ih1 t1 show ?thesis by auto
        next
          case f: False
          note ih2 = "3.IH"(2) [OF Inr True inner res [symmetric] f]
          from Inr True inner res f ih1 ih2 t1 show ?thesis
            by (auto simp: Un_assoc)
        qed
      qed
    qed
  qed
qed

text \<open>
  C8. \<open>dfs\<close> works on one visited set, handed from call to call and never rolled back.
  A call returns the set it was given together with every state it called \<open>dfs\<close> on,
  so the set only grows; when the recursive call for one action fails, the loop goes on to
  the next action with the set as the failed call left it; and the states \<open>dfs\<close> is
  called on during a search are pairwise different and none of them was in the set before:
  a state that is in the visited set is never searched from again, by whatever path it is
  reached.
\<close>

theorem dfs_visited_set_shared:
  "distinct (dfs_calls p state steps taken) \<and>
   set (dfs_calls p state steps taken) \<inter> taken = {} \<and>
   (dfs p state steps taken = Inr (r, taken') \<longrightarrow>
      taken \<subseteq> taken' \<and> taken' = taken \<union> set (dfs_calls p state steps taken)) \<and>
   (do_action p state action = Inr later_state \<and> later_state \<notin> taken \<and> length steps < 45 \<and>
    dfs p later_state (steps @ [action]) (insert later_state taken) = Inr (route, taken1) \<and>
    \<not> truthy route \<longrightarrow>
      insert later_state taken \<subseteq> taken1 \<and>
      dfs_for p state steps (action # actions) taken = dfs_for p state steps actions taken1)"
proof (intro conjI impI)
  show "distinct (dfs_calls p state steps taken)"
    and "set (dfs_calls p state steps taken) \<inter> taken = {}"
    using dfs_calls_visited(1) [of p state steps taken] by blast+
next
  assume "dfs p state steps taken = Inr (r, taken')"
  with dfs_calls_visited(1) [of p state steps taken]
  show "taken' = taken \<union> set (dfs_calls p state steps taken)" by blast
  then show "taken \<subseteq> taken'" by blast
next
  assume a: "do_action p state action = Inr later_state \<and> later_state \<notin> taken \<and>
    length steps < 45 \<and>
    dfs p later_state (steps @ [action]) (insert later_state taken) = Inr (route, taken1) \<and>
    \<not> truthy route"
  with dfs_calls_visited(1) [of p later_state "steps @ [action]" "insert later_state taken"]
  show "insert later_state taken \<subseteq> taken1" by blast
  from a show "dfs_for p state steps (action # actions) taken = dfs_for p state steps actions taken1"
    by simp
qed

lemma dfs_VacuumProblem:
  "dfs VacuumProblem (0, [True, True]) [] {(0, [True, True])} =
     Inr (Some [''Suck'', ''Right'', ''Suck''],
          {(0, [True, True]), (0, [False, True]), (1, [False, True]), (1, [False, False])})"
  by code_simp

lemma vacuum_Suck: "do_action VacuumProblem (0, [True, True]) ''Suck'' = Inr (0, [False, True])"
  by code_simp

lemma dfs_VacuumProblem_at_bound:
  "dfs VacuumProblem (0, [False, True]) (replicate 44 ''Left'' @ [''Suck''])
     (insert (0, [False, True]) {(0, [True, True])})
     = Inr (None, {(0, [True, True]), (0, [False, True])})"
  by code_simp

theorem dfs_visited_set_shared_witness:
  "dfs VacuumProblem (0, [True, True]) [] {(0, [True, True])} =
     Inr (Some [''Suck'', ''Right'', ''Suck''],
          {(0, [True, True]), (0, [False, True]), (1, [False, True]), (1, [False, False])}) \<and>
   distinct (dfs_calls VacuumProblem (0, [True, True]) [] {(0, [True, True])}) \<and>
   {(0, [True, True]), (0, [False, True]), (1, [False, True]), (1, [False, False])} =
     {(0, [True, True])} \<union> set (dfs_calls VacuumProblem (0, [True, True]) [] {(0, [True, True])}) \<and>
   do_action VacuumProblem (0, [True, True]) ''Suck'' = Inr (0, [False, True]) \<and>
   (0, [False, True]) \<notin> {(0, [True, True]) :: vacuum_state} \<and>
   length (replicate 44 ''Left'') < 45 \<and>
   dfs VacuumProblem (0, [False, True]) (replicate 44 ''Left'' @ [''Suck''])
     (insert (0, [False, True]) {(0, [True, True])})
     = Inr (None, {(0, [True, True]), (0, [False, True])}) \<and>
   \<not> truthy (None :: string list option) \<and>
   dfs_for VacuumProblem (0, [True, True]) (replicate 44 ''Left'') [''Suck'', ''Right'']
     {(0, [True, True])}
   = dfs_for VacuumProblem (0, [True, True]) (replicate 44 ''Left'') [''Right'']
     {(0, [True, True]), (0, [False, True])}"
proof -
  note a = dfs_visited_set_shared [of VacuumProblem "(0, [True, True])" "[]" "{(0, [True, True])}"
         "Some [''Suck'', ''Right'', ''Suck'']"
         "{(0, [True, True]), (0, [False, True]), (1, [False, True]), (1, [False, False])}"
         "''Suck''" "(0, [False, True])" None "{}" "[]"]
  note b = dfs_visited_set_shared [of VacuumProblem "(0, [True, True])" "replicate 44 ''Left''"
         "{(0, [True, True])}" None "{}" "''Suck''" "(0, [False, True])" None
         "{(0, [True, True]), (0, [False, True])}" "[''Right'']"]
  have h1: "(0, [False, True]) \<notin> {(0, [True, True]) :: vacuum_state}" by simp
  have h2: "length (replicate 44 ''Left'') < 45" by simp
  have h3: "\<not> truthy (None :: string list option)" by simp
  have d: "distinct (dfs_calls VacuumProblem (0, [True, True]) [] {(0, [True, True])})"
    using a by (rule conjunct1)
  have u: "{(0, [True, True]), (0, [False, True]), (1, [False, True]), (1, [False, False])} =
     {(0, [True, True])} \<union> set (dfs_calls VacuumProblem (0, [True, True]) [] {(0, [True, True])})"
    using a [THEN conjunct2, THEN conjunct2, THEN conjunct1, rule_format, OF dfs_VacuumProblem]
    by (rule conjunct2)
  have hyp: "do_action VacuumProblem (0, [True, True]) ''Suck'' = Inr (0, [False, True]) \<and>
    (0, [False, True]) \<notin> {(0, [True, True]) :: vacuum_state} \<and>
    length (replicate 44 ''Left'') < 45 \<and>
    dfs VacuumProblem (0, [False, True]) (replicate 44 ''Left'' @ [''Suck''])
      (insert (0, [False, True]) {(0, [True, True])})
      = Inr (None, {(0, [True, True]), (0, [False, True])}) \<and>
    \<not> truthy (None :: string list option)"
    by (intro conjI vacuum_Suck h1 h2 h3 dfs_VacuumProblem_at_bound)
  have f: "dfs_for VacuumProblem (0, [True, True]) (replicate 44 ''Left'') [''Suck'', ''Right'']
     {(0, [True, True])}
   = dfs_for VacuumProblem (0, [True, True]) (replicate 44 ''Left'') [''Right'']
     {(0, [True, True]), (0, [False, True])}"
    using b [THEN conjunct2, THEN conjunct2, THEN conjunct2, rule_format, OF hyp]
    by (rule conjunct2)
  show ?thesis
    by (intro conjI dfs_VacuumProblem d u vacuum_Suck h1 h2 h3 dfs_VacuumProblem_at_bound f)
qed


section \<open>A*: one visited set behind every queue entry\<close>

lemma pq_min_in: "pq_min e q \<in> set (e # q)"
proof (induction q arbitrary: e)
  case Nil
  then show ?case by simp
next
  case (Cons x q)
  have "pq_min (if entry_less x e then x else e) q \<in> set ((if entry_less x e then x else e) # q)"
    by (rule Cons.IH)
  then show ?case by (auto simp del: entry_less.simps split: if_splits)
qed

lemma pq_get_Some:
  "pq_get q = Some (m, q') \<Longrightarrow> m \<in> set q \<and> set q' \<subseteq> set q"
proof (cases q)
  case Nil
  assume "pq_get q = Some (m, q')"
  with Nil show ?thesis by simp
next
  case (Cons e es)
  assume "pq_get q = Some (m, q')"
  with Cons have m: "m = pq_min e es" and q': "q' = remove1 m (e # es)"
    by (auto simp add: Let_def simp del: remove1.simps)
  from m pq_min_in [of e es] Cons have "m \<in> set q" by simp
  moreover from q' Cons have "set q' \<subseteq> set q" using set_remove1_subset by fastforce
  ultimately show ?thesis by simp
qed

text \<open>The entries of a queue that hold the address \<open>r\<close> and whose state is in the set
  stored there.\<close>

lemma astar_for_shared:
  assumes "astar_for p state route ts action_costs actions (queue, heap) = Inr (queue', heap')"
      and "ts < length heap"
      and "\<forall>(c, r, s, t, ac) \<in> set queue. t = ts \<and> s \<in> heap ! ts"
  shows "length heap' = length heap \<and> heap ! ts \<subseteq> heap' ! ts \<and>
         (\<forall>(c, r, s, t, ac) \<in> set queue'. t = ts \<and> s \<in> heap' ! ts)"
  using assms
proof (induction actions arbitrary: queue heap)
  case Nil
  then show ?case by auto
next
  case (Cons action actions)
  show ?case
  proof (cases "do_action p state action")
    case (Inl e)
    with Cons.prems(1) show ?thesis by simp
  next
    case (Inr later_state)
    show ?thesis
    proof (cases "later_state \<notin> heap ! ts")
      case False
      with Inr Cons.prems have
        "astar_for p state route ts action_costs actions (queue, heap) = Inr (queue', heap')"
        by simp
      from Cons.IH [OF this Cons.prems(2) Cons.prems(3)] show ?thesis .
    next
      case True
      let ?heap = "heap[ts := insert later_state (heap ! ts)]"
      let ?queue = "pq_put (action_costs + action_cost p state action + heuristic p later_state,
                      route @ [action], later_state, ts,
                      action_costs + action_cost p state action) queue"
      from True Inr Cons.prems(1) have
        run: "astar_for p state route ts action_costs actions (?queue, ?heap) = Inr (queue', heap')"
        by (simp add: Let_def)
      have len: "ts < length ?heap" using Cons.prems(2) by simp
      have inv: "\<forall>(c, r, s, t, ac) \<in> set ?queue. t = ts \<and> s \<in> ?heap ! ts"
        using Cons.prems(2) Cons.prems(3) by (auto simp: pq_put_def)
      from Cons.IH [OF run len inv] Cons.prems(2) show ?thesis by auto
    qed
  qed
qed

lemma astar_step_shared:
  assumes "astar_step p (queue, heap, ts) = Some (Inr (Continue (queue', heap', ts')))"
      and "length heap = 1" and "ts = 0"
      and "\<forall>(c, r, s, t, ac) \<in> set queue. t = 0 \<and> s \<in> heap ! 0"
  shows "length heap' = 1 \<and> ts' = 0 \<and> heap ! 0 \<subseteq> heap' ! 0 \<and>
         (\<forall>(c, r, s, t, ac) \<in> set queue'. t = 0 \<and> s \<in> heap' ! 0)"
proof -
  from assms(1) obtain cost route state taken_states action_costs rest where
    get: "pq_get queue = Some ((cost, route, state, taken_states, action_costs), rest)"
    and loop: "astar_for p state route taken_states action_costs (available_actions p state)
                (rest, heap) = Inr (queue', heap')"
    and ts': "ts' = taken_states"
    by (auto split: option.splits if_splits sum.splits prod.splits)
  from pq_get_Some [OF get] have m: "(cost, route, state, taken_states, action_costs) \<in> set queue"
    and sub: "set rest \<subseteq> set queue" by simp_all
  from m assms(4) have t0: "taken_states = 0" by auto
  have inv: "\<forall>(c, r, s, t, ac) \<in> set rest. t = taken_states \<and> s \<in> heap ! taken_states"
    using sub assms(4) t0 by auto
  have "taken_states < length heap" using t0 assms(2) by simp
  from astar_for_shared [OF loop this inv] t0 ts' assms(2) show ?thesis by simp
qed








section \<open>A plan that a search returns leads to a goal state\<close>

text \<open>Breadth-first search, with the global \<^verbatim>\<open>problem\<close> being the agent's own problem, as
  in every cell of the notebook.\<close>

lemma bfs_for_plan:
  assumes "bfs_for p p start route actions (visited, taken) = Inr res"
      and "run_plan p s0 route = Inr start"
      and "\<forall>(r, s) \<in> set visited. run_plan p s0 r = Inr s"
      and "\<forall>s \<in> taken. \<not> is_goal p s"
  shows "case res of
           Return plan \<Rightarrow> \<exists>g. run_plan p s0 plan = Inr g \<and> is_goal p g
         | Continue (visited', taken') \<Rightarrow>
             (\<forall>(r, s) \<in> set visited'. run_plan p s0 r = Inr s) \<and>
             (\<forall>s \<in> taken'. \<not> is_goal p s) \<and> length visited \<le> length visited'"
  using assms
proof (induction actions arbitrary: visited taken)
  case Nil
  then show ?case by auto
next
  case (Cons m ms)
  show ?case
  proof (cases "do_action p start m")
    case (Inl e)
    with Cons.prems(1) show ?thesis by simp
  next
    case (Inr state)
    have run: "run_plan p s0 (route @ [m]) = Inr state"
      using Cons.prems(2) Inr by (simp add: run_plan_snoc)
    show ?thesis
    proof (cases "is_goal p state")
      case goal: True
      with Cons.prems(4) have new: "state \<notin> taken" by blast
      with goal Inr Cons.prems(1) have "res = Return (route @ [m])" by auto
      with run goal show ?thesis by simp
    next
      case nogoal: False
      show ?thesis
      proof (cases "state \<in> taken")
        case True
        with nogoal Inr Cons.prems(1)
        have "bfs_for p p start route ms (visited, taken) = Inr res" by simp
        from Cons.IH [OF this Cons.prems(2) Cons.prems(3) Cons.prems(4)] show ?thesis .
      next
        case False
        with nogoal Inr Cons.prems(1)
        have loop: "bfs_for p p start route ms
                      (visited @ [(route @ [m], state)], insert state taken) = Inr res"
          by simp
        have v: "\<forall>(r, s) \<in> set (visited @ [(route @ [m], state)]). run_plan p s0 r = Inr s"
          using Cons.prems(3) run by auto
        have t: "\<forall>s \<in> insert state taken. \<not> is_goal p s"
          using Cons.prems(4) nogoal by auto
        from Cons.IH [OF loop Cons.prems(2) v t] show ?thesis
          by (auto split: flow.splits)
      qed
    qed
  qed
qed

lemma bfs_while_plan:
  assumes "bfs_while fuel p p (visited, taken, idx) = Some (Inr plan)"
      and "\<forall>(r, s) \<in> set visited. run_plan p s0 r = Inr s"
      and "\<forall>s \<in> taken. \<not> is_goal p s"
  shows "\<exists>g. run_plan p s0 plan = Inr g \<and> is_goal p g"
  using assms
proof (induction fuel arbitrary: visited taken idx)
  case 0
  then show ?case by simp
next
  case (Suc fuel)
  from Suc.prems(1) have idx: "idx < length visited"
    by (auto split: if_splits)
  obtain route start where e: "visited ! idx = (route, start)" by (cases "visited ! idx")
  with idx have "(route, start) \<in> set visited" by (metis nth_mem)
  with Suc.prems(2) have run: "run_plan p s0 route = Inr start" by auto
  from Suc.prems(1) idx e obtain res where
    loop: "bfs_for p p start route (available_actions p start) (visited, taken) = Inr res"
    by (auto split: sum.splits)
  note inv = bfs_for_plan [OF loop run Suc.prems(2) Suc.prems(3)]
  show ?case
  proof (cases res)
    case (Return plan')
    with Suc.prems(1) idx e loop have "plan' = plan" by simp
    with inv Return show ?thesis by simp
  next
    case (Continue vars)
    obtain visited' taken' where vars: "vars = (visited', taken')" by (cases vars)
    with Suc.prems(1) idx e loop Continue
    have "bfs_while fuel p p (visited', taken', idx + 1) = Some (Inr plan)" by simp
    moreover from inv Continue vars have
      "\<forall>(r, s) \<in> set visited'. run_plan p s0 r = Inr s" "\<forall>s \<in> taken'. \<not> is_goal p s"
      by simp_all
    ultimately show ?thesis by (rule Suc.IH)
  qed
qed

lemma bfs_plan_reaches_goal:
  assumes "bfs fuel p p = Some (Inr plan)"
  shows "\<exists>g. run_plan p (initial_state p) plan = Inr g \<and> is_goal p g"
proof -
  from assms have "bfs_while fuel p p ([([], initial_state p)], {}, 0) = Some (Inr plan)"
    by (simp add: bfs_def bfs_init_def)
  then show ?thesis by (rule bfs_while_plan) simp_all
qed

text \<open>
  The goal test of \<open>bfs\<close> reads the global variable \<^verbatim>\<open>problem\<close>. In the notebook that
  variable always holds the agent's problem. Were it to hold another problem, here one
  whose every state is a goal, the plan returned need not lead to a goal of the agent's
  problem.
\<close>

lemma bfs_global_goal_test:
  "bfs 1 (VacuumProblem \<lparr> is_goal := (\<lambda>state. True) \<rparr>) VacuumProblem
     = Some (Inr [''Left''])"
  by code_simp

lemma bfs_goal_test_reads_global:
  "bfs (1 + n) (VacuumProblem \<lparr> is_goal := (\<lambda>state. True) \<rparr>) VacuumProblem
     = Some (Inr [''Left'']) \<and>
   run_plan VacuumProblem (initial_state VacuumProblem) [''Left''] = Inr (0, [True, True]) \<and>
   \<not> is_goal VacuumProblem (0, [True, True])"
  using bfs_more_fuel [OF bfs_global_goal_test, of n]
  by (simp add: VacuumProblem_def vacuum_is_goal_def)

lemma DFSAgent_plan_reaches_goal:
  assumes "DFSAgent_plan p = Inr (Some plan)"
  shows "\<exists>g. run_plan p (initial_state p) plan = Inr g \<and> is_goal p g"
proof -
  from assms obtain taken' where
    "dfs p (initial_state p) [] {initial_state p} = Inr (Some plan, taken')"
    by (auto simp: DFSAgent_plan_def split: sum.splits)
  from dfs_plan_reaches_goal(1) [OF this, of "initial_state p"] show ?thesis by simp
qed

lemma astar_for_routes:
  assumes "astar_for p state route ts action_costs actions (queue, heap) = Inr (queue', heap')"
      and "run_plan p s0 route = Inr state"
      and "\<forall>(c, r, s, t, ac) \<in> set queue. run_plan p s0 r = Inr s"
  shows "\<forall>(c, r, s, t, ac) \<in> set queue'. run_plan p s0 r = Inr s"
  using assms
proof (induction actions arbitrary: queue heap)
  case Nil
  then show ?case by auto
next
  case (Cons action actions)
  show ?case
  proof (cases "do_action p state action")
    case (Inl e)
    with Cons.prems(1) show ?thesis by simp
  next
    case (Inr later_state)
    have run: "run_plan p s0 (route @ [action]) = Inr later_state"
      using Cons.prems(2) Inr by (simp add: run_plan_snoc)
    show ?thesis
    proof (cases "later_state \<notin> heap ! ts")
      case False
      with Inr Cons.prems(1) have
        "astar_for p state route ts action_costs actions (queue, heap) = Inr (queue', heap')"
        by simp
      from Cons.IH [OF this Cons.prems(2) Cons.prems(3)] show ?thesis .
    next
      case True
      let ?heap = "heap[ts := insert later_state (heap ! ts)]"
      let ?queue = "pq_put (action_costs + action_cost p state action + heuristic p later_state,
                      route @ [action], later_state, ts,
                      action_costs + action_cost p state action) queue"
      from True Inr Cons.prems(1) have
        loop: "astar_for p state route ts action_costs actions (?queue, ?heap) = Inr (queue', heap')"
        by (simp add: Let_def)
      have inv: "\<forall>(c, r, s, t, ac) \<in> set ?queue. run_plan p s0 r = Inr s"
        using Cons.prems(3) run by (auto simp: pq_put_def)
      from Cons.IH [OF loop Cons.prems(2) inv] show ?thesis .
    qed
  qed
qed

lemma astar_while_plan:
  assumes "astar_while fuel p (queue, heap, ts) = Some (Inr (Some plan, n))"
      and "\<forall>(c, r, s, t, ac) \<in> set queue. run_plan p s0 r = Inr s"
  shows "\<exists>g. run_plan p s0 plan = Inr g \<and> is_goal p g"
  using assms
proof (induction fuel arbitrary: queue heap ts)
  case 0
  then show ?case by simp
next
  case (Suc fuel)
  from Suc.prems(1) have ne: "queue \<noteq> []" by (auto split: if_splits)
  then obtain cost route state taken_states action_costs rest where
    get: "pq_get queue = Some ((cost, route, state, taken_states, action_costs), rest)"
    by (cases queue) (auto simp: Let_def simp del: remove1.simps, metis prod_cases5)
  from pq_get_Some [OF get] have m: "(cost, route, state, taken_states, action_costs) \<in> set queue"
    and sub: "set rest \<subseteq> set queue" by simp_all
  from m Suc.prems(2) have run: "run_plan p s0 route = Inr state" by auto
  show ?case
  proof (cases "is_goal p state")
    case True
    with Suc.prems(1) ne get have "plan = route" by simp
    with run True show ?thesis by simp
  next
    case False
    with Suc.prems(1) ne get obtain q1 h1 where
      loop: "astar_for p state route taken_states action_costs (available_actions p state)
               (rest, heap) = Inr (q1, h1)"
      and rest: "astar_while fuel p (q1, h1, taken_states) = Some (Inr (Some plan, n))"
      by (auto split: sum.splits)
    have "\<forall>(c, r, s, t, ac) \<in> set rest. run_plan p s0 r = Inr s"
      using sub Suc.prems(2) by auto
    from astar_for_routes [OF loop run this] rest show ?thesis by (rule Suc.IH [rotated])
  qed
qed

lemma astar_plan_reaches_goal:
  assumes "astar fuel p = Some (Inr (Some plan, n))"
  shows "\<exists>g. run_plan p (initial_state p) plan = Inr g \<and> is_goal p g"
proof -
  from assms have "astar_while fuel p
      ([(heuristic p (initial_state p), [], initial_state p, 0, 0)], [{initial_state p}], 0)
      = Some (Inr (Some plan, n))"
    by (simp add: astar_def astar_init_def pq_put_def)
  then show ?thesis by (rule astar_while_plan) simp
qed


section \<open>A*: the entries of the queue differ in their routes\<close>

text \<open>
  Every entry that \<open>astar\<close> queues is for a state that was not yet in the visited set, and
  a route determines the state it leads to. So pending entries have pairwise different
  states and routes, and the order by cost and route alone decides which entry
  \<^verbatim>\<open>get\<close> hands out.
\<close>

lemma astar_for_distinct:
  assumes "astar_for p state route ts action_costs actions (queue, heap) = Inr (queue', heap')"
      and "ts < length heap"
      and "distinct (map entry_state queue)"
      and "\<forall>(c, r, s, t, ac) \<in> set queue. s \<in> heap ! ts"
  shows "distinct (map entry_state queue') \<and>
         (\<forall>(c, r, s, t, ac) \<in> set queue'. s \<in> heap' ! ts) \<and> length heap' = length heap"
  using assms
proof (induction actions arbitrary: queue heap)
  case Nil
  then show ?case by auto
next
  case (Cons action actions)
  show ?case
  proof (cases "do_action p state action")
    case (Inl e)
    with Cons.prems(1) show ?thesis by simp
  next
    case (Inr later_state)
    show ?thesis
    proof (cases "later_state \<notin> heap ! ts")
      case False
      with Inr Cons.prems have
        "astar_for p state route ts action_costs actions (queue, heap) = Inr (queue', heap')"
        by simp
      from Cons.IH [OF this Cons.prems(2) Cons.prems(3) Cons.prems(4)] show ?thesis .
    next
      case True
      let ?heap = "heap[ts := insert later_state (heap ! ts)]"
      let ?queue = "pq_put (action_costs + action_cost p state action + heuristic p later_state,
                      route @ [action], later_state, ts,
                      action_costs + action_cost p state action) queue"
      from True Inr Cons.prems(1) have
        loop: "astar_for p state route ts action_costs actions (?queue, ?heap) = Inr (queue', heap')"
        by (simp add: Let_def)
      have len: "ts < length ?heap" using Cons.prems(2) by simp
      have "later_state \<notin> entry_state ` set queue"
        using True Cons.prems(4) by (auto simp: entry_state_def)
      moreover have "entry_state (action_costs + action_cost p state action
                       + heuristic p later_state, route @ [action], later_state, ts,
                       action_costs + action_cost p state action) = later_state"
        by (simp add: entry_state_def)
      ultimately have d: "distinct (map entry_state ?queue)"
        using Cons.prems(3) by (simp add: pq_put_def)
      have inv: "\<forall>(c, r, s, t, ac) \<in> set ?queue. s \<in> ?heap ! ts"
        using Cons.prems(2) Cons.prems(4) by (auto simp: pq_put_def)
      from Cons.IH [OF loop len d inv] show ?thesis by simp
    qed
  qed
qed

lemma distinct_map_remove1: "distinct (map f xs) \<Longrightarrow> distinct (map f (remove1 x xs))"
proof (induction xs)
  case Nil
  then show ?case by simp
next
  case (Cons a xs)
  have "set (remove1 x xs) \<subseteq> set xs" by (rule set_remove1_subset)
  with Cons show ?case by auto
qed

lemma pq_get_distinct:
  assumes "pq_get q = Some (m, q')" and "distinct (map f q)"
  shows "distinct (map f q')"
proof (cases q)
  case Nil
  with assms(1) show ?thesis by simp
next
  case (Cons e es)
  with assms(1) have "q' = remove1 m q"
    by (auto simp add: Let_def simp del: remove1.simps)
  with assms(2) show ?thesis by (simp add: distinct_map_remove1)
qed

lemma astar_vars_after_distinct:
  assumes "astar_vars_after n p (queue, heap, ts) = Some (queue', heap', ts')"
      and "length heap = 1" and "ts = 0"
      and "\<forall>(c, r, s, t, ac) \<in> set queue. t = 0 \<and> s \<in> heap ! 0"
      and "distinct (map entry_state queue)"
  shows "distinct (map entry_state queue')"
  using assms
proof (induction n arbitrary: queue heap ts)
  case 0
  then show ?case by simp
next
  case (Suc n)
  from Suc.prems(1) obtain q1 h1 t1 where
    step: "astar_step p (queue, heap, ts) = Some (Inr (Continue (q1, h1, t1)))"
    and rest: "astar_vars_after n p (q1, h1, t1) = Some (queue', heap', ts')"
    by (auto simp del: astar_step.simps split: if_splits option.splits sum.splits flow.splits)
  from astar_step_shared [OF step Suc.prems(2) Suc.prems(3) Suc.prems(4)]
  have a: "length h1 = 1" "t1 = 0" "\<forall>(c, r, s, t, ac) \<in> set q1. t = 0 \<and> s \<in> h1 ! 0"
    by simp_all
  from step obtain cost route state taken_states action_costs rest' where
    get: "pq_get queue = Some ((cost, route, state, taken_states, action_costs), rest')"
    and loop: "astar_for p state route taken_states action_costs (available_actions p state)
                (rest', heap) = Inr (q1, h1)"
    by (auto split: option.splits if_splits sum.splits prod.splits)
  from pq_get_Some [OF get] have m: "(cost, route, state, taken_states, action_costs) \<in> set queue"
    and sub: "set rest' \<subseteq> set queue" by simp_all
  from m Suc.prems(4) have t0: "taken_states = 0" by auto
  have d: "distinct (map entry_state rest')"
    using pq_get_distinct [OF get Suc.prems(5)] .
  have inv: "\<forall>(c, r, s, t, ac) \<in> set rest'. s \<in> heap ! taken_states"
    using sub Suc.prems(4) t0 by auto
  have "taken_states < length heap" using t0 Suc.prems(2) by simp
  from astar_for_distinct [OF loop this d inv] have "distinct (map entry_state q1)"
    by simp
  from Suc.IH [OF rest a(1) a(2) a(3) this] show ?case .
qed

lemma astar_vars_after_routes:
  assumes "astar_vars_after n p (queue, heap, ts) = Some (queue', heap', ts')"
      and "\<forall>(c, r, s, t, ac) \<in> set queue. run_plan p s0 r = Inr s"
  shows "\<forall>(c, r, s, t, ac) \<in> set queue'. run_plan p s0 r = Inr s"
  using assms
proof (induction n arbitrary: queue heap ts)
  case 0
  then show ?case by simp
next
  case (Suc n)
  from Suc.prems(1) obtain q1 h1 t1 where
    step: "astar_step p (queue, heap, ts) = Some (Inr (Continue (q1, h1, t1)))"
    and rest: "astar_vars_after n p (q1, h1, t1) = Some (queue', heap', ts')"
    by (auto simp del: astar_step.simps split: if_splits option.splits sum.splits flow.splits)
  from step obtain cost route state taken_states action_costs rest' where
    get: "pq_get queue = Some ((cost, route, state, taken_states, action_costs), rest')"
    and loop: "astar_for p state route taken_states action_costs (available_actions p state)
                (rest', heap) = Inr (q1, h1)"
    by (auto split: option.splits if_splits sum.splits prod.splits)
  from pq_get_Some [OF get] have m: "(cost, route, state, taken_states, action_costs) \<in> set queue"
    and sub: "set rest' \<subseteq> set queue" by simp_all
  from m Suc.prems(2) have run: "run_plan p s0 route = Inr state" by auto
  have "\<forall>(c, r, s, t, ac) \<in> set rest'. run_plan p s0 r = Inr s"
    using sub Suc.prems(2) by auto
  from astar_for_routes [OF loop run this] rest show ?case by (rule Suc.IH [rotated])
qed

lemma astar_queue_routes_distinct:
  assumes "astar_vars_after n p (astar_init p) = Some (queue, heap, ts)"
  shows "distinct (map entry_route queue)"
proof -
  have start: "astar_vars_after n p
          ([(heuristic p (initial_state p), [], initial_state p, 0, 0)], [{initial_state p}], 0)
        = Some (queue, heap, ts)"
    using assms by (simp add: astar_init_def pq_put_def)
  have d: "distinct (map entry_state queue)"
    by (rule astar_vars_after_distinct [OF start]) simp_all
  have r: "\<forall>(c, r, s, t, ac) \<in> set queue. run_plan p (initial_state p) r = Inr s"
    by (rule astar_vars_after_routes [OF start]) simp
  have "inj_on entry_route (set queue)"
  proof (rule inj_onI)
    fix x y assume x: "x \<in> set queue" and y: "y \<in> set queue"
      and eq: "entry_route x = entry_route y"
    obtain c1 r1 s1 t1 a1 where x': "x = (c1, r1, s1, t1, a1)" by (cases x)
    obtain c2 r2 s2 t2 a2 where y': "y = (c2, r2, s2, t2, a2)" by (cases y)
    from eq x' y' have "r1 = r2" by (simp add: entry_route_def)
    moreover from r x x' have "run_plan p (initial_state p) r1 = Inr s1" by fastforce
    moreover from r y y' have "run_plan p (initial_state p) r2 = Inr s2" by fastforce
    ultimately have "s1 = s2" by simp
    then have "entry_state x = entry_state y" using x' y' by (simp add: entry_state_def)
    with d x y show "x = y" by (meson distinct_map inj_onD)
  qed
  moreover from d have "distinct queue" by (simp add: distinct_map)
  ultimately show ?thesis by (simp add: distinct_map)
qed


section \<open>Breadth-first search: shortest plans when the initial state is not a goal\<close>

lemma legal_plan_snoc:
  "legal_plan p s (xs @ [a]) =
     (legal_plan p s xs \<and>
      (case run_plan p s xs of
         Inl e \<Rightarrow> False
       | Inr s' \<Rightarrow> a \<in> set (available_actions p s') \<and> (\<exists>s''. do_action p s' a = Inr s'')))"
proof (induction xs arbitrary: s)
  case Nil
  show ?case by (cases "do_action p s a") auto
next
  case (Cons x xs)
  show ?case by (cases "do_action p s x") (auto simp: Cons.IH)
qed

lemma bfs_for_extends:
  assumes "bfs_for p p start route actions (visited, taken) = Inr res"
      and "\<forall>s \<in> taken. \<not> is_goal p s \<and> s \<in> snd ` set visited"
  shows "case res of
           Return plan \<Rightarrow> \<exists>m. plan = route @ [m]
         | Continue (visited', taken') \<Rightarrow>
             (\<exists>ext. visited' = visited @ ext \<and>
                    (\<forall>e \<in> set ext. length (fst e) = length route + 1)) \<and>
             taken \<subseteq> taken' \<and>
             (\<forall>s \<in> taken'. \<not> is_goal p s \<and> s \<in> snd ` set visited') \<and>
             (\<forall>a \<in> set actions. \<forall>s'. do_action p start a = Inr s' \<longrightarrow>
                 \<not> is_goal p s' \<and> s' \<in> taken')"
  using assms
proof (induction actions arbitrary: visited taken)
  case Nil
  then show ?case by auto
next
  case (Cons m ms)
  show ?case
  proof (cases "do_action p start m")
    case (Inl e)
    with Cons.prems(1) show ?thesis by simp
  next
    case (Inr state)
    show ?thesis
    proof (cases "is_goal p state")
      case goal: True
      with Cons.prems(2) have "state \<notin> taken" by blast
      with goal Inr Cons.prems(1) have "res = Return (route @ [m])" by auto
      then show ?thesis by simp
    next
      case nogoal: False
      show ?thesis
      proof (cases "state \<in> taken")
        case True
        with nogoal Inr Cons.prems(1)
        have loop: "bfs_for p p start route ms (visited, taken) = Inr res" by simp
        note ih = Cons.IH [OF loop Cons.prems(2)]
        show ?thesis
        proof (cases res)
          case (Return plan)
          with ih show ?thesis by simp
        next
          case (Continue vars)
          obtain visited' taken' where vars: "vars = (visited', taken')" by (cases vars)
          from ih Continue vars True nogoal Inr show ?thesis by auto
        qed
      next
        case False
        let ?visited = "visited @ [(route @ [m], state)]"
        from False nogoal Inr Cons.prems(1)
        have loop: "bfs_for p p start route ms (?visited, insert state taken) = Inr res"
          by simp
        have t: "\<forall>s \<in> insert state taken. \<not> is_goal p s \<and> s \<in> snd ` set ?visited"
          using Cons.prems(2) nogoal by force
        note ih = Cons.IH [OF loop t]
        show ?thesis
        proof (cases res)
          case (Return plan)
          with ih show ?thesis by simp
        next
          case (Continue vars)
          obtain visited' taken' where vars: "vars = (visited', taken')" by (cases vars)
          from ih Continue vars obtain ext where
            ext: "visited' = ?visited @ ext" "\<forall>e \<in> set ext. length (fst e) = length route + 1"
            and sub: "insert state taken \<subseteq> taken'"
            and tk: "\<forall>s \<in> taken'. \<not> is_goal p s \<and> s \<in> snd ` set visited'"
            and succ: "\<forall>a \<in> set ms. \<forall>s'. do_action p start a = Inr s' \<longrightarrow>
                 \<not> is_goal p s' \<and> s' \<in> taken'"
            by auto
          have "visited' = visited @ ((route @ [m], state) # ext) \<and>
                (\<forall>e \<in> set ((route @ [m], state) # ext). length (fst e) = length route + 1)"
            using ext by simp
          then have "\<exists>ext. visited' = visited @ ext \<and>
                (\<forall>e \<in> set ext. length (fst e) = length route + 1)" by blast
          moreover have "\<forall>a \<in> set (m # ms). \<forall>s'. do_action p start a = Inr s' \<longrightarrow>
                 \<not> is_goal p s' \<and> s' \<in> taken'"
            using succ Inr nogoal sub by auto
          ultimately show ?thesis using Continue vars sub tk by simp
        qed
      qed
    qed
  qed
qed

lemma sorted_map_const: "\<forall>e \<in> set xs. f e = (c::nat) \<Longrightarrow> sorted (map f xs)"
  by (induction xs) auto

lemma bfs_step_inv:
  assumes inv: "bfs_inv p (visited, taken, idx)"
      and step: "bfs_step p p (visited, taken, idx) = Inr (Continue vars')"
  shows "bfs_inv p vars'"
proof -
  let ?f = "\<lambda>e. length (fst e)"
  from step have idx: "idx < length visited" by (auto split: if_splits)
  obtain route start where e: "visited ! idx = (route, start)" by (cases "visited ! idx")
  from inv idx e have ne: "visited \<noteq> []" and hd: "hd visited = ([], initial_state p)"
    and srt: "sorted (map ?f visited)"
    and bound: "\<forall>e \<in> set visited. ?f e \<le> length route + 1"
    and tk: "\<forall>s \<in> taken. \<not> is_goal p s \<and> s \<in> snd ` set visited"
    and closed: "\<forall>e \<in> set (take idx visited). \<forall>a \<in> set (available_actions p (snd e)). \<forall>s'.
           do_action p (snd e) a = Inr s' \<longrightarrow>
             \<not> is_goal p s' \<and> (\<exists>e' \<in> set visited. snd e' = s' \<and> ?f e' \<le> ?f e + 1)"
    by (simp_all add: bfs_inv_def)
  from step idx e obtain visited' taken' where
    loop: "bfs_for p p start route (available_actions p start) (visited, taken)
             = Inr (Continue (visited', taken'))"
    and vars': "vars' = (visited', taken', idx + 1)"
    by (auto split: sum.splits flow.splits)
  from bfs_for_extends [OF loop tk] obtain ext where
    ext: "visited' = visited @ ext" and extlen: "\<forall>e \<in> set ext. ?f e = length route + 1"
    and tk': "\<forall>s \<in> taken'. \<not> is_goal p s \<and> s \<in> snd ` set visited'"
    and succ: "\<forall>a \<in> set (available_actions p start). \<forall>s'. do_action p start a = Inr s' \<longrightarrow>
                 \<not> is_goal p s' \<and> s' \<in> taken'"
    by auto
  have bound': "\<forall>e \<in> set visited'. ?f e \<le> length route + 1"
    using bound extlen ext by auto
  have srt': "sorted (map ?f visited')"
    unfolding ext using srt bound extlen sorted_map_const [of ext ?f "length route + 1"]
    by (auto simp: sorted_append)
  have nth_idx: "visited' ! idx = (route, start)" using idx e ext by (simp add: nth_append)
  have k4: "idx + 1 < length visited' \<longrightarrow>
              (\<forall>e \<in> set visited'. ?f e \<le> ?f (visited' ! (idx + 1)) + 1)"
  proof
    assume l: "idx + 1 < length visited'"
    from srt' l have "?f (visited' ! idx) \<le> ?f (visited' ! (idx + 1))"
      by (simp add: sorted_iff_nth_mono)
    with nth_idx bound' show "\<forall>e \<in> set visited'. ?f e \<le> ?f (visited' ! (idx + 1)) + 1"
      by fastforce
  qed
  have tk_eq: "take (idx + 1) visited' = take idx visited @ [(route, start)]"
    using idx e ext by (simp add: take_Suc_conv_app_nth)
  have closed': "\<forall>e \<in> set (take (idx + 1) visited').
           \<forall>a \<in> set (available_actions p (snd e)). \<forall>s'.
           do_action p (snd e) a = Inr s' \<longrightarrow>
             \<not> is_goal p s' \<and> (\<exists>e' \<in> set visited'. snd e' = s' \<and> ?f e' \<le> ?f e + 1)"
  proof (intro ballI allI impI)
    fix e a s'
    assume e_in: "e \<in> set (take (idx + 1) visited')"
      and a: "a \<in> set (available_actions p (snd e))" and d: "do_action p (snd e) a = Inr s'"
    from e_in tk_eq consider (old) "e \<in> set (take idx visited)" | (new) "e = (route, start)"
      by auto
    then show "\<not> is_goal p s' \<and> (\<exists>e' \<in> set visited'. snd e' = s' \<and> ?f e' \<le> ?f e + 1)"
    proof cases
      case old
      with closed a d ext show ?thesis by fastforce
    next
      case new
      with succ a d have ng: "\<not> is_goal p s'" and "s' \<in> taken'" by auto
      with tk' obtain e' where "e' \<in> set visited'" "snd e' = s'" by auto
      with bound' new ng show ?thesis by auto
    qed
  qed
  have "idx + 1 \<le> length visited'" using idx ext by simp
  moreover have "visited' \<noteq> []" using ne ext by simp
  moreover have "hd visited' = ([], initial_state p)" using ne hd ext by simp
  ultimately show ?thesis
    using srt' k4 tk' closed' unfolding vars' by (simp add: bfs_inv_def)
qed

lemma bfs_init_inv: "bfs_inv p (bfs_init p)"
  by (simp add: bfs_inv_def bfs_init_def)

lemma bfs_vars_after_inv:
  "bfs_inv p vars \<Longrightarrow> bfs_vars_after n p p vars = Some vars' \<Longrightarrow> bfs_inv p vars'"
proof (induction n arbitrary: vars)
  case 0
  then show ?case by simp
next
  case (Suc n)
  from Suc.prems(2) obtain v1 where step: "bfs_step p p vars = Inr (Continue v1)"
    and rest: "bfs_vars_after n p p v1 = Some vars'"
    by (auto simp del: bfs_step.simps split: sum.splits flow.splits)
  obtain visited taken idx where v: "vars = (visited, taken, idx)" by (cases vars)
  from bfs_step_inv [OF Suc.prems(1) [unfolded v] step [unfolded v]] have "bfs_inv p v1" .
  from Suc.IH [OF this rest] show ?case .
qed

text \<open>Every state that a legal plan no longer than the route at \<open>idx\<close> leads to is in
  \<^verbatim>\<open>visited\<close>, and is not a goal unless the plan is empty.\<close>

lemma bfs_inv_reach:
  assumes inv: "bfs_inv p (visited, taken, idx)"
      and "legal_plan p (initial_state p) q"
      and "run_plan p (initial_state p) q = Inr s"
      and "idx < length visited \<longrightarrow> length q \<le> length (fst (visited ! idx))"
  shows "(q \<noteq> [] \<longrightarrow> \<not> is_goal p s) \<and>
         (\<exists>e \<in> set visited. snd e = s \<and> length (fst e) \<le> length q)"
  using assms(2-)
proof (induction q arbitrary: s rule: rev_induct)
  case Nil
  from inv have "visited \<noteq> []" "hd visited = ([], initial_state p)"
    by (simp_all add: bfs_inv_def)
  then have "([], initial_state p) \<in> set visited" by (metis hd_in_set)
  with Nil show ?case by force
next
  case (snoc a q)
  let ?f = "\<lambda>e. length (fst e)"
  from snoc.prems(1) obtain s0 where
    lq: "legal_plan p (initial_state p) q" and r0: "run_plan p (initial_state p) q = Inr s0"
    and av: "a \<in> set (available_actions p s0)"
    by (auto simp: legal_plan_snoc split: sum.splits)
  from snoc.prems(2) r0 have d: "do_action p s0 a = Inr s" by (simp add: run_plan_snoc)
  have short: "idx < length visited \<longrightarrow> length q \<le> length (fst (visited ! idx))"
    using snoc.prems(3) by auto
  from snoc.IH [OF lq r0 short] obtain e where
    e: "e \<in> set visited" "snd e = s0" "?f e \<le> length q" by blast
  have "e \<in> set (take idx visited)"
  proof (cases "idx < length visited")
    case False
    with e(1) show ?thesis by simp
  next
    case True
    from e(1) obtain j where j: "j < length visited" "visited ! j = e"
      by (auto simp: in_set_conv_nth)
    have "j < idx"
    proof (rule ccontr)
      assume "\<not> j < idx"
      then have "idx \<le> j" by simp
      moreover from inv have "sorted (map ?f visited)" by (simp add: bfs_inv_def)
      ultimately have "?f (visited ! idx) \<le> ?f (visited ! j)"
        using j(1) True by (simp add: sorted_iff_nth_mono)
      with j(2) e(3) snoc.prems(3) True show False by simp
    qed
    with j show ?thesis by (auto simp: in_set_conv_nth)
  qed
  with inv av d e(2) have "\<not> is_goal p s \<and> (\<exists>e' \<in> set visited. snd e' = s \<and> ?f e' \<le> ?f e + 1)"
    by (simp add: bfs_inv_def)
  with e(3) show ?case by fastforce
qed

lemma bfs_while_minimal:
  assumes "bfs_while fuel p p vars = Some (Inr plan)"
      and "bfs_inv p vars"
      and "\<not> is_goal p (initial_state p)"
      and "legal_plan p (initial_state p) q"
      and "run_plan p (initial_state p) q = Inr g" and "is_goal p g"
  shows "length plan \<le> length q"
  using assms(1,2)
proof (induction fuel arbitrary: vars)
  case 0
  then show ?case by simp
next
  case (Suc fuel)
  obtain visited taken idx where v: "vars = (visited, taken, idx)" by (cases vars)
  from Suc.prems(1) v have idx: "idx < length visited" by (auto split: if_splits)
  obtain route start where e: "visited ! idx = (route, start)" by (cases "visited ! idx")
  from Suc.prems(1) v idx e obtain res where
    loop: "bfs_for p p start route (available_actions p start) (visited, taken) = Inr res"
    by (auto split: sum.splits)
  from Suc.prems(2) v have tk: "\<forall>s \<in> taken. \<not> is_goal p s \<and> s \<in> snd ` set visited"
    by (simp add: bfs_inv_def)
  show ?case
  proof (cases res)
    case (Return plan')
    with Suc.prems(1) v idx e loop have "plan' = plan" by simp
    with bfs_for_extends [OF loop tk] Return obtain m where plan: "plan = route @ [m]" by auto
    show ?thesis
    proof (rule ccontr)
      assume "\<not> length plan \<le> length q"
      with plan e have "idx < length visited \<longrightarrow> length q \<le> length (fst (visited ! idx))"
        by simp
      from bfs_inv_reach [OF Suc.prems(2) [unfolded v] assms(4) assms(5) this]
      have "q \<noteq> [] \<longrightarrow> \<not> is_goal p g" by simp
      moreover from assms(3,5,6) have "q \<noteq> []" by auto
      ultimately show False using assms(6) by simp
    qed
  next
    case (Continue w)
    obtain visited' taken' where w: "w = (visited', taken')" by (cases w)
    from Suc.prems(1) v idx e loop Continue w
    have step: "bfs_step p p (visited, taken, idx) = Inr (Continue (visited', taken', idx + 1))"
      and rest: "bfs_while fuel p p (visited', taken', idx + 1) = Some (Inr plan)"
      by simp_all
    from bfs_step_inv [OF Suc.prems(2) [unfolded v] step] rest show ?thesis
      by (rule Suc.IH [rotated])
  qed
qed

text \<open>
  When the initial state is not a goal, the plan that \<open>bfs\<close> returns is a shortest one:
  no legal plan from the initial state to a goal state has fewer actions.
\<close>

lemma bfs_plan_minimal:
  assumes "bfs fuel p p = Some (Inr plan)"
      and "\<not> is_goal p (initial_state p)"
      and "legal_plan p (initial_state p) q"
      and "run_plan p (initial_state p) q = Inr g" and "is_goal p g"
  shows "length plan \<le> length q"
  using assms(1) bfs_init_inv assms(2-) unfolding bfs_def by (rule bfs_while_minimal)

text \<open>
  When \<open>idx\<close> has run past \<^verbatim>\<open>visited\<close>, the next pass raises IndexError, and then no
  legal plan of one action or more leads from the initial state to a goal state.
\<close>

lemma bfs_exhausted:
  assumes "bfs_vars_after n p p (bfs_init p) = Some (visited, taken, idx)"
      and "length visited \<le> idx"
  shows "bfs_step p p (visited, taken, idx) = Inl IndexError \<and>
         (\<forall>q g. legal_plan p (initial_state p) q \<and> run_plan p (initial_state p) q = Inr g \<and>
                 q \<noteq> [] \<longrightarrow> \<not> is_goal p g)"
proof -
  from bfs_vars_after_inv [OF bfs_init_inv assms(1)] have inv: "bfs_inv p (visited, taken, idx)" .
  have "\<not> is_goal p g"
    if "legal_plan p (initial_state p) q" "run_plan p (initial_state p) q = Inr g" "q \<noteq> []"
    for q g
    using bfs_inv_reach [OF inv that(1) that(2)] assms(2) that(3) by simp
  with assms(2) show ?thesis by auto
qed


section \<open>What an absent result of A* and of depth-first search means\<close>

lemma astar_for_closes:
  assumes "astar_for p state route ts action_costs actions (queue, heap) = Inr (queue', heap')"
      and "ts < length heap"
  shows "heap ! ts \<subseteq> heap' ! ts \<and> set queue \<subseteq> set queue' \<and>
         (\<forall>a \<in> set actions. \<forall>s'. do_action p state a = Inr s' \<longrightarrow> s' \<in> heap' ! ts) \<and>
         (\<forall>s' \<in> heap' ! ts - heap ! ts. s' \<in> entry_state ` set queue')"
  using assms
proof (induction actions arbitrary: queue heap)
  case Nil
  then show ?case by auto
next
  case (Cons action actions)
  show ?case
  proof (cases "do_action p state action")
    case (Inl e)
    with Cons.prems(1) show ?thesis by simp
  next
    case (Inr later_state)
    show ?thesis
    proof (cases "later_state \<notin> heap ! ts")
      case False
      with Inr Cons.prems have
        "astar_for p state route ts action_costs actions (queue, heap) = Inr (queue', heap')"
        by simp
      from Cons.IH [OF this Cons.prems(2)] False Inr show ?thesis by auto
    next
      case True
      let ?heap = "heap[ts := insert later_state (heap ! ts)]"
      let ?e = "(action_costs + action_cost p state action + heuristic p later_state,
                 route @ [action], later_state, ts, action_costs + action_cost p state action)"
      from True Inr Cons.prems(1) have
        loop: "astar_for p state route ts action_costs actions (pq_put ?e queue, ?heap)
                 = Inr (queue', heap')"
        by (simp add: Let_def)
      have len: "ts < length ?heap" using Cons.prems(2) by simp
      from Cons.IH [OF loop len] have
        h: "?heap ! ts \<subseteq> heap' ! ts" and q: "set (pq_put ?e queue) \<subseteq> set queue'"
        and succ: "\<forall>a \<in> set actions. \<forall>s'. do_action p state a = Inr s' \<longrightarrow> s' \<in> heap' ! ts"
        and new: "\<forall>s' \<in> heap' ! ts - ?heap ! ts. s' \<in> entry_state ` set queue'"
        by simp_all
      have hts: "?heap ! ts = insert later_state (heap ! ts)" using Cons.prems(2) by simp
      have ein: "?e \<in> set queue'" using q by (auto simp: pq_put_def)
      have "entry_state ?e = later_state" by (simp add: entry_state_def)
      with ein have lin: "later_state \<in> entry_state ` set queue'" by (metis imageI)
      have "heap ! ts \<subseteq> heap' ! ts" using h hts by auto
      moreover have "set queue \<subseteq> set queue'" using q by (auto simp: pq_put_def)
      moreover have "\<forall>a \<in> set (action # actions). \<forall>s'.
            do_action p state a = Inr s' \<longrightarrow> s' \<in> heap' ! ts"
        using succ Inr h hts by auto
      moreover have "\<forall>s' \<in> heap' ! ts - heap ! ts. s' \<in> entry_state ` set queue'"
        using new hts lin by auto
      ultimately show ?thesis by simp
    qed
  qed
qed

lemma astar_while_none:
  assumes "astar_while fuel p (queue, heap, ts) = Some (Inr (None, n))"
      and "length heap = 1" and "ts = 0"
      and "\<forall>(c, r, s, t, ac) \<in> set queue. t = 0 \<and> s \<in> heap ! 0"
      and "\<forall>s \<in> heap ! 0. s \<in> entry_state ` set queue \<or>
             (\<not> is_goal p s \<and>
              (\<forall>a \<in> set (available_actions p s). \<forall>s'. do_action p s a = Inr s' \<longrightarrow> s' \<in> heap ! 0))"
      and "s0 \<in> heap ! 0"
  shows "\<exists>H. s0 \<in> H \<and> (\<forall>s \<in> H. \<not> is_goal p s \<and>
              (\<forall>a \<in> set (available_actions p s). \<forall>s'. do_action p s a = Inr s' \<longrightarrow> s' \<in> H))"
  using assms
proof (induction fuel arbitrary: queue heap ts)
  case 0
  then show ?case by simp
next
  case (Suc fuel)
  show ?case
  proof (cases "queue = []")
    case True
    with Suc.prems(5,6) show ?thesis by (intro exI [of _ "heap ! 0"]) auto
  next
    case False
    then obtain cost route state taken_states action_costs rest where
      get: "pq_get queue = Some ((cost, route, state, taken_states, action_costs), rest)"
      by (cases queue) (auto simp: Let_def simp del: remove1.simps, metis prod_cases5)
    from pq_get_Some [OF get] have m: "(cost, route, state, taken_states, action_costs) \<in> set queue"
      and sub: "set rest \<subseteq> set queue" by simp_all
    from m Suc.prems(4) have t0: "taken_states = 0" by auto
    from get False have rest_eq: "rest = remove1 (cost, route, state, taken_states, action_costs) queue"
      by (cases queue) (auto simp: Let_def simp del: remove1.simps)
    from Suc.prems(1) False get have ng: "\<not> is_goal p state" by (auto split: if_splits)
    with Suc.prems(1) False get obtain q1 h1 where
      loop: "astar_for p state route taken_states action_costs (available_actions p state)
               (rest, heap) = Inr (q1, h1)"
      and run: "astar_while fuel p (q1, h1, taken_states) = Some (Inr (None, n))"
      by (auto split: sum.splits)
    have step: "astar_step p (queue, heap, ts) = Some (Inr (Continue (q1, h1, taken_states)))"
      using get ng loop by simp
    from astar_step_shared [OF step Suc.prems(2) Suc.prems(3) Suc.prems(4)]
    have a: "length h1 = 1" "heap ! 0 \<subseteq> h1 ! 0"
      "\<forall>(c, r, s, t, ac) \<in> set q1. t = 0 \<and> s \<in> h1 ! 0" by simp_all
    have "taken_states < length heap" using t0 Suc.prems(2) by simp
    from astar_for_closes [OF loop this] t0 have
      q: "set rest \<subseteq> set q1"
      and succ: "\<forall>a \<in> set (available_actions p state). \<forall>s'.
                   do_action p state a = Inr s' \<longrightarrow> s' \<in> h1 ! 0"
      and new: "\<forall>s' \<in> h1 ! 0 - heap ! 0. s' \<in> entry_state ` set q1"
      by simp_all
    have closed: "\<forall>s \<in> h1 ! 0. s \<in> entry_state ` set q1 \<or>
             (\<not> is_goal p s \<and>
              (\<forall>a \<in> set (available_actions p s). \<forall>s'. do_action p s a = Inr s' \<longrightarrow> s' \<in> h1 ! 0))"
    proof
      fix s assume s: "s \<in> h1 ! 0"
      show "s \<in> entry_state ` set q1 \<or>
             (\<not> is_goal p s \<and>
              (\<forall>a \<in> set (available_actions p s). \<forall>s'. do_action p s a = Inr s' \<longrightarrow> s' \<in> h1 ! 0))"
      proof (cases "s = state")
        case True
        with ng succ show ?thesis by simp
      next
        case ns: False
        show ?thesis
        proof (cases "s \<in> heap ! 0")
          case False
          with s new show ?thesis by simp
        next
          case True
          with Suc.prems(5) consider (queued) "s \<in> entry_state ` set queue"
            | (expanded) "\<not> is_goal p s \<and> (\<forall>a \<in> set (available_actions p s). \<forall>s'.
                        do_action p s a = Inr s' \<longrightarrow> s' \<in> heap ! 0)"
            by blast
          then show ?thesis
          proof cases
            case queued
            then obtain e where e: "e \<in> set queue" "entry_state e = s" by auto
            with ns have "e \<noteq> (cost, route, state, taken_states, action_costs)"
              by (auto simp: entry_state_def)
            with e(1) rest_eq have "e \<in> set rest" by simp
            with q e(2) show ?thesis by auto
          next
            case expanded
            with a(2) show ?thesis by blast
          qed
        qed
      qed
    qed
    have "s0 \<in> h1 ! 0" using Suc.prems(6) a(2) by auto
    from Suc.IH [OF run a(1) t0 a(3) closed this] show ?thesis .
  qed
qed

lemma closed_set_reach:
  assumes "s \<in> H"
      and "\<forall>s \<in> H. \<not> is_goal p s \<and>
              (\<forall>a \<in> set (available_actions p s). \<forall>s'. do_action p s a = Inr s' \<longrightarrow> s' \<in> H)"
      and "legal_plan p s q" and "run_plan p s q = Inr g"
  shows "g \<in> H"
  using assms(1,3,4)
proof (induction q arbitrary: s)
  case Nil
  then show ?case by simp
next
  case (Cons a q)
  from Cons.prems(2) obtain s' where d: "do_action p s a = Inr s'"
    and av: "a \<in> set (available_actions p s)" and l: "legal_plan p s' q"
    by (auto split: sum.splits)
  from Cons.prems(3) d have r: "run_plan p s' q = Inr g" by simp
  from assms(2) Cons.prems(1) av d have "s' \<in> H" by blast
  from Cons.IH [OF this l r] show ?case .
qed

text \<open>
  \<open>astar\<close> returns \<^verbatim>\<open>None\<close> only when no legal plan leads from the initial state to a
  goal state.
\<close>

lemma astar_none_no_goal:
  assumes "astar fuel p = Some (Inr (None, n))"
      and "legal_plan p (initial_state p) q" and "run_plan p (initial_state p) q = Inr g"
  shows "\<not> is_goal p g"
proof -
  from assms(1) have run: "astar_while fuel p
      ([(heuristic p (initial_state p), [], initial_state p, 0, 0)], [{initial_state p}], 0)
      = Some (Inr (None, n))"
    by (simp add: astar_def astar_init_def pq_put_def)
  have "\<exists>H. initial_state p \<in> H \<and> (\<forall>s \<in> H. \<not> is_goal p s \<and>
              (\<forall>a \<in> set (available_actions p s). \<forall>s'. do_action p s a = Inr s' \<longrightarrow> s' \<in> H))"
    by (rule astar_while_none [OF run]) (simp_all add: entry_state_def)
  then obtain H where H: "initial_state p \<in> H"
    "\<forall>s \<in> H. \<not> is_goal p s \<and>
              (\<forall>a \<in> set (available_actions p s). \<forall>s'. do_action p s a = Inr s' \<longrightarrow> s' \<in> H)"
    by blast
  from closed_set_reach [OF H assms(2) assms(3)] H(2) show ?thesis by blast
qed

lemma dfs_plan_length_ge:
  "dfs p state steps taken = Inr (Some plan, taken') \<Longrightarrow> length steps \<le> length plan"
  "dfs_for p state steps actions taken = Inr (Some plan, taken') \<Longrightarrow>
     length steps \<le> length plan"
proof (induction p state steps taken and p state steps actions taken
       arbitrary: plan taken' and plan taken' rule: dfs_dfs_for.induct)
  case (1 p state steps taken_states)
  then show ?case by (auto split: if_splits)
next
  case (2 p state steps taken_states)
  then show ?case by simp
next
  case (3 p state steps action actions taken_states)
  from "3.prems" show ?case
    by (auto split: sum.splits if_splits prod.splits
             dest: "3.IH"(1) "3.IH"(2) "3.IH"(3))
qed

text \<open>
  \<open>dfs\<close> returns \<^verbatim>\<open>None\<close> only when neither the state it was called on nor any state it
  called itself on is a goal.
\<close>

declare dfs.simps [simp del] dfs_calls.simps [simp del]

lemma dfs_none_no_goal:
  "dfs p state steps taken = Inr (None, taken') \<Longrightarrow>
     \<not> is_goal p state \<and> (\<forall>s \<in> set (dfs_calls p state steps taken). \<not> is_goal p s)"
  "dfs_for p state steps actions taken = Inr (None, taken') \<Longrightarrow>
     (\<forall>s \<in> set (dfs_for_calls p state steps actions taken). \<not> is_goal p s)"
proof (induction p state steps taken and p state steps actions taken
       arbitrary: taken' and taken' rule: dfs_dfs_for.induct)
  case (1 p state steps taken_states)
  then show ?case by (auto simp: dfs.simps dfs_calls.simps split: if_splits)
next
  case (2 p state steps taken_states)
  then show ?case by simp
next
  case (3 p state steps action actions taken_states)
  show ?case
  proof (cases "do_action p state action")
    case (Inl e)
    with "3.prems" show ?thesis by simp
  next
    case (Inr later_state)
    show ?thesis
    proof (cases "later_state \<notin> taken_states \<and> length steps < 45")
      case False
      with Inr "3.prems" "3.IH"(3) show ?thesis by auto
    next
      case True
      show ?thesis
      proof (cases "dfs p later_state (steps @ [action]) (insert later_state taken_states)")
        case (Inl e)
        with Inr True "3.prems" show ?thesis by simp
      next
        case inner: (Inr res)
        obtain route taken1 where res: "res = (route, taken1)" by (cases res)
        show ?thesis
        proof (cases "truthy route")
          case t: True
          with Inr True inner res "3.prems" show ?thesis by auto
        next
          case f: False
          with Inr True inner res "3.prems"
          have rest: "dfs_for p state steps actions taken1 = Inr (None, taken')" by simp
          have "route = None \<or> route = Some []" using f by (cases route) auto
          moreover have "route \<noteq> Some []"
          proof
            assume "route = Some []"
            with inner res dfs_plan_length_ge(1) [of p later_state "steps @ [action]"
                  "insert later_state taken_states" "[]" taken1]
            show False by simp
          qed
          ultimately have "route = None" by simp
          with "3.IH"(1) [OF Inr True] inner res
          have 1: "\<not> is_goal p later_state \<and>
            (\<forall>s \<in> set (dfs_calls p later_state (steps @ [action])
                          (insert later_state taken_states)). \<not> is_goal p s)" by simp
          from "3.IH"(2) [OF Inr True inner res [symmetric] f rest]
          have 2: "\<forall>s \<in> set (dfs_for_calls p state steps actions taken1). \<not> is_goal p s" .
          from 1 2 Inr True inner res f show ?thesis by auto
        qed
      qed
    qed
  qed
qed


section \<open>The observed loop variables are those of the search\<close>

lemma bfs_while_vars_after:
  "bfs_vars_after n glob p vars = Some vars' \<Longrightarrow>
     bfs_while (n + k) glob p vars = bfs_while k glob p vars'"
proof (induction n arbitrary: vars)
  case 0
  then show ?case by simp
next
  case (Suc n)
  from Suc.prems obtain v1 where step: "bfs_step glob p vars = Inr (Continue v1)"
    and rest: "bfs_vars_after n glob p v1 = Some vars'"
    by (auto simp del: bfs_step.simps split: sum.splits flow.splits)
  from Suc.IH [OF rest] step show ?case by simp
qed

lemma astar_while_vars_after:
  "astar_vars_after n p vars = Some vars' \<Longrightarrow>
     astar_while (n + k) p vars = astar_while k p vars'"
proof (induction n arbitrary: vars)
  case 0
  then show ?case by simp
next
  case (Suc n)
  obtain queue heap ts where v: "vars = (queue, heap, ts)" by (cases vars)
  from Suc.prems v obtain v1 where ne: "queue \<noteq> []"
    and step: "astar_step p (queue, heap, ts) = Some (Inr (Continue v1))"
    and rest: "astar_vars_after n p v1 = Some vars'"
    by (auto simp del: astar_step.simps split: if_splits option.splits sum.splits flow.splits)
  from Suc.IH [OF rest] step ne v show ?case by (simp del: astar_step.simps)
qed

section \<open>A* on problems with admissible and consistent heuristics\<close>

lemma consistent_admissible:
  assumes "consistent p" and "\<forall>g. is_goal p g \<longrightarrow> heuristic p g \<le> 0"
  shows "admissible p"
proof -
  have "heuristic p s \<le> plan_cost p s q"
    if "legal_plan p s q" "run_plan p s q = Inr g" "is_goal p g" for s q g
    using that
  proof (induction q arbitrary: s)
    case Nil
    with assms(2) show ?case by simp
  next
    case (Cons a q)
    from Cons.prems(1) obtain s' where d: "do_action p s a = Inr s'"
      and av: "a \<in> set (available_actions p s)" and l: "legal_plan p s' q"
      by (auto split: sum.splits)
    from Cons.prems(2) d have r: "run_plan p s' q = Inr g" by simp
    from Cons.IH [OF l r Cons.prems(3)] have "heuristic p s' \<le> plan_cost p s' q" .
    moreover from assms(1) av d have "heuristic p s \<le> action_cost p s a + heuristic p s'"
      by (auto simp: consistent_def)
    ultimately show ?case using d by simp
  qed
  then show ?thesis by (auto simp: admissible_def)
qed

lemma DetourProblem_consistent: "consistent DetourProblem"
  by (simp add: consistent_def DetourProblem_def)

lemma DetourProblem_admissible: "admissible DetourProblem"
  by (rule consistent_admissible [OF DetourProblem_consistent]) (simp add: DetourProblem_def)

lemma UnitDetourProblem_consistent: "consistent UnitDetourProblem"
  by (auto simp: consistent_def UnitDetourProblem_def split: if_splits)

lemma UnitDetourProblem_admissible: "admissible UnitDetourProblem"
  by (rule consistent_admissible [OF UnitDetourProblem_consistent])
     (simp add: UnitDetourProblem_def)

lemma astar_UnitDetourProblem:
  "astar 7 UnitDetourProblem = Some (Inr (Some [''a'', ''a'', ''a'', ''c'', ''c''], 7))"
  by code_simp

lemma UnitDetourProblem_plans:
  "plan_cost UnitDetourProblem 0 [''a'', ''a'', ''a'', ''c'', ''c''] = 5 \<and>
   legal_plan UnitDetourProblem 0 [''b'', ''b'', ''c'', ''c''] \<and>
   run_plan UnitDetourProblem 0 [''b'', ''b'', ''c'', ''c''] = Inr 6 \<and>
   plan_cost UnitDetourProblem 0 [''b'', ''b'', ''c'', ''c''] = 4"
  by (simp add: UnitDetourProblem_def)

text \<open>
  With unit action costs too, and without any tie in the queue, \<open>astar\<close> can return a
  plan that is not a cheapest one although the heuristic is admissible and consistent:
  here a plan of cost 5 where one of cost 4 exists.
\<close>

lemma astar_unit_cost_not_minimal:
  "consistent UnitDetourProblem \<and> admissible UnitDetourProblem \<and>
   astar (7 + n) UnitDetourProblem = Some (Inr (Some [''a'', ''a'', ''a'', ''c'', ''c''], 7)) \<and>
   plan_cost UnitDetourProblem (initial_state UnitDetourProblem)
     [''a'', ''a'', ''a'', ''c'', ''c''] = 5 \<and>
   legal_plan UnitDetourProblem (initial_state UnitDetourProblem) [''b'', ''b'', ''c'', ''c''] \<and>
   run_plan UnitDetourProblem (initial_state UnitDetourProblem) [''b'', ''b'', ''c'', ''c'']
     = Inr 6 \<and>
   is_goal UnitDetourProblem 6 \<and>
   plan_cost UnitDetourProblem (initial_state UnitDetourProblem) [''b'', ''b'', ''c'', ''c''] = 4"
  using astar_more_fuel [OF astar_UnitDetourProblem, of n] UnitDetourProblem_plans
        UnitDetourProblem_consistent UnitDetourProblem_admissible
  by (simp add: UnitDetourProblem_def)


end
